theory Spec2Isabelle
  imports Complex_Main "HOL-Library.Multiset"
begin

section \<open>The board generator of \<open>src/components/MainStage.tsx\<close>\<close>

text \<open>
  The embedding follows \<open>getHexPositions\<close> in \<open>CatanBoard\<close>: the static tables
  \<open>terrains\<close>, \<open>tokens\<close> and \<open>adjacencyMap\<close>, the three validation functions and
  \<open>generateValidAssignment\<close>, and the pip count of \<open>Hexagon\<close>.

  JavaScript values are modelled as follows.
  \<^item> The table \<open>terrains\<close> is built from six object literals
    \<open>{color, name, texture}\<close>, and every array of terrains holds references to these
    six objects (\<open>Array(4).fill(obj)\<close> stores the same object four times, the shuffles
    move references). The datatype \<open>terrain\<close> names the six objects and \<open>color\<close>,
    \<open>name\<close>, \<open>texture\<close> read their properties; \<open>name\<close> stays a string, compared
    with \<open>===\<close> as in the source.
  \<^item> The numbers that occur are small integers, so a number is an \<open>int\<close>. An element
    of a number array that may be \<open>undefined\<close> is an \<open>int option\<close> with \<open>None\<close> for
    \<open>undefined\<close>.
  \<^item> Reading \<open>.name\<close> of a missing array element and iterating a missing entry of
    \<open>adjacencyMap\<close> throw a \<open>TypeError\<close> in JavaScript; the model returns
    \<open>Inl TypeError\<close> there.
  \<^item> \<open>Math.random()\<close> is the only input. The successive values it returns are a
    function \<open>rnd :: nat \<Rightarrow> real\<close> (the \<open>k\<close>-th call returns \<open>rnd k\<close>), and the
    number of calls made so far is threaded through the code as a counter. The
    product \<open>Math.random() * (i + 1)\<close> is taken in the reals.
  \<^item> \<open>console.warn\<close> appends its argument list to a log that is returned with the
    result.
  \<^item> Arrays are lists passed by value. A second model of the generator, further
    below, keeps the arrays in a store and passes references; it is used for the
    statement that the tables are not modified and is shown to return what the
    first model returns.
\<close>

subsection \<open>Values and static tables\<close>

datatype error = TypeError

type_synonym jsnum = "int option"

datatype jsval = Str string | Num int

datatype terrain = Wood | Wheat | Sheep | Ore | Brick | Desert

fun color :: "terrain \<Rightarrow> nat" where
  "color Wood = 0x2f4f2f"
| "color Wheat = 0xe9d1ca"
| "color Sheep = 0x90ee90"
| "color Ore = 0x808080"
| "color Brick = 0xd2691e"
| "color Desert = 0xf4a460"

fun name :: "terrain \<Rightarrow> string" where
  "name Wood = ''Wood''"
| "name Wheat = ''Wheat''"
| "name Sheep = ''Sheep''"
| "name Ore = ''Ore''"
| "name Brick = ''Brick''"
| "name Desert = ''Desert''"

fun texture :: "terrain \<Rightarrow> string" where
  "texture Wood = ''/src/assets/hexes/forest.png''"
| "texture Wheat = ''/src/assets/hexes/field.png''"
| "texture Sheep = ''/src/assets/hexes/pasture.png''"
| "texture Ore = ''/src/assets/hexes/mountain.png''"
| "texture Brick = ''/src/assets/hexes/hill.png''"
| "texture Desert = ''/src/assets/hexes/desert.png''"

text \<open>\<open>[...Array(4).fill(wood), ..., desert]\<close>: each slot refers to one of the six objects.\<close>

definition terrains :: "terrain list" where
  "terrains =
     replicate 4 Wood @ replicate 4 Wheat @ replicate 4 Sheep @
     replicate 3 Ore @ replicate 3 Brick @ [Desert]"

definition tokens :: "int list" where
  "tokens = [2, 3, 3, 4, 4, 5, 5, 6, 6, 8, 8, 9, 9, 10, 10, 11, 11, 12]"

definition adjacencyMap :: "nat \<rightharpoonup> nat list" where
  "adjacencyMap = map_of
     [(0, [1, 3, 4]),
      (1, [0, 2, 4, 5]),
      (2, [1, 5, 6]),
      (3, [0, 4, 7, 8]),
      (4, [0, 1, 3, 5, 8, 9]),
      (5, [1, 2, 4, 6, 9, 10]),
      (6, [2, 5, 10, 11]),
      (7, [3, 8, 12, 13]),
      (8, [3, 4, 7, 9, 13, 14]),
      (9, [4, 5, 8, 10, 14, 15]),
      (10, [5, 6, 9, 11, 15, 16]),
      (11, [6, 10, 16, 17]),
      (12, [7, 13, 16]),
      (13, [7, 8, 12, 14, 16, 17]),
      (14, [8, 9, 13, 15, 17, 18]),
      (15, [9, 10, 14, 18]),
      (16, [10, 11, 12, 13, 17]),
      (17, [11, 13, 14, 16, 18]),
      (18, [14, 15, 17])]"

subsection \<open>Array reads\<close>

text \<open>\<open>terrainTypes[i].name\<close>: a \<open>TypeError\<close> when the element is missing.\<close>

definition name_at :: "terrain list \<Rightarrow> nat \<Rightarrow> error + string" where
  "name_at terrainTypes i =
     (if i < length terrainTypes then Inr (name (terrainTypes ! i)) else Inl TypeError)"

text \<open>\<open>tokenAssignments[i]\<close>: \<open>undefined\<close> when the element is missing.\<close>

definition token_at :: "jsnum list \<Rightarrow> nat \<Rightarrow> jsnum" where
  "token_at tokenAssignments i =
     (if i < length tokenAssignments then tokenAssignments ! i else None)"

text \<open>\<open>shuffledTokens[tokenIndex]\<close> on the array of numbers.\<close>

definition number_at :: "int list \<Rightarrow> nat \<Rightarrow> jsnum" where
  "number_at xs i = (if i < length xs then Some (xs ! i) else None)"

subsection \<open>\<open>validateRedAdjacency\<close>\<close>

text \<open>
  The inner \<open>for (const adjIndex of adjacencyMap[i])\<close>. It answers \<open>True\<close> when it
  reaches the \<open>return false\<close> of the source (a red neighbour was found) and \<open>False\<close>
  when the loop runs to its end.
\<close>

fun red_neighbour :: "jsnum list \<Rightarrow> terrain list \<Rightarrow> nat list \<Rightarrow> error + bool" where
  "red_neighbour tokenAssignments terrainTypes [] = Inr False"
| "red_neighbour tokenAssignments terrainTypes (adjIndex # rest) =
     (case name_at terrainTypes adjIndex of
        Inl e \<Rightarrow> Inl e
      | Inr n \<Rightarrow>
          if n \<noteq> ''Desert'' then
            (let adjToken = token_at tokenAssignments adjIndex in
             if adjToken = Some 6 \<or> adjToken = Some 8 then Inr True
             else red_neighbour tokenAssignments terrainTypes rest)
          else red_neighbour tokenAssignments terrainTypes rest)"

text \<open>The outer \<open>for (let i = 0; i < 19; i++)\<close>, over the indices still to visit.\<close>

fun red_loop :: "jsnum list \<Rightarrow> terrain list \<Rightarrow> nat list \<Rightarrow> error + bool" where
  "red_loop tokenAssignments terrainTypes [] = Inr True"
| "red_loop tokenAssignments terrainTypes (i # rest) =
     (case name_at terrainTypes i of
        Inl e \<Rightarrow> Inl e
      | Inr n \<Rightarrow>
          if n = ''Desert'' then red_loop tokenAssignments terrainTypes rest
          else
            (let token = token_at tokenAssignments i in
             if token = Some 6 \<or> token = Some 8 then
               (case adjacencyMap i of
                  None \<Rightarrow> Inl TypeError
                | Some adj \<Rightarrow>
                    (case red_neighbour tokenAssignments terrainTypes adj of
                       Inl e \<Rightarrow> Inl e
                     | Inr found \<Rightarrow>
                         if found then Inr False
                         else red_loop tokenAssignments terrainTypes rest))
             else red_loop tokenAssignments terrainTypes rest))"

definition validateRedAdjacency :: "jsnum list \<Rightarrow> terrain list \<Rightarrow> error + bool" where
  "validateRedAdjacency tokenAssignments terrainTypes =
     red_loop tokenAssignments terrainTypes [0..<19]"

subsection \<open>\<open>validateResourceDistribution\<close> and \<open>validateLowNumberClustering\<close>\<close>

text \<open>
  \<open>resourceTokens\<close> is an object used as a dictionary from terrain names to arrays
  of tokens. Its keys are enumerated by \<open>for ... in\<close> in insertion order, so it is
  an association list with new keys added at the end.
\<close>

type_synonym resource_dict = "(string \<times> jsnum list) list"

text \<open>
  \<open>if (!resourceTokens[resource]) resourceTokens[resource] = [];
  resourceTokens[resource].push(token);\<close>
\<close>

fun push_token :: "string \<Rightarrow> jsnum \<Rightarrow> resource_dict \<Rightarrow> resource_dict" where
  "push_token resource token [] = [(resource, [token])]"
| "push_token resource token ((r, ts) # d) =
     (if r = resource then (r, ts @ [token]) # d
      else (r, ts) # push_token resource token d)"

text \<open>
  The first loop, which is the same in both functions: it fills \<open>resourceTokens\<close>
  from the non-Desert positions.
\<close>

fun collect_loop ::
  "jsnum list \<Rightarrow> terrain list \<Rightarrow> nat list \<Rightarrow> resource_dict \<Rightarrow> error + resource_dict" where
  "collect_loop tokenAssignments terrainTypes [] resourceTokens = Inr resourceTokens"
| "collect_loop tokenAssignments terrainTypes (i # rest) resourceTokens =
     (case name_at terrainTypes i of
        Inl e \<Rightarrow> Inl e
      | Inr resource \<Rightarrow>
          if resource = ''Desert'' then
            collect_loop tokenAssignments terrainTypes rest resourceTokens
          else
            collect_loop tokenAssignments terrainTypes rest
              (push_token resource (token_at tokenAssignments i) resourceTokens))"

text \<open>The second loop of \<open>validateResourceDistribution\<close>.\<close>

fun distribution_check :: "resource_dict \<Rightarrow> bool" where
  "distribution_check [] = True"
| "distribution_check ((resource, ts) # rest) =
     (let sixCount = length (filter (\<lambda>t. t = Some 6) ts);
          eightCount = length (filter (\<lambda>t. t = Some 8) ts)
      in if sixCount > 1 \<or> eightCount > 1 then False else distribution_check rest)"

definition validateResourceDistribution :: "jsnum list \<Rightarrow> terrain list \<Rightarrow> error + bool" where
  "validateResourceDistribution tokenAssignments terrainTypes =
     (case collect_loop tokenAssignments terrainTypes [0..<19] [] of
        Inl e \<Rightarrow> Inl e
      | Inr resourceTokens \<Rightarrow> Inr (distribution_check resourceTokens))"

text \<open>The second loop of \<open>validateLowNumberClustering\<close>.\<close>

fun clustering_check :: "resource_dict \<Rightarrow> bool" where
  "clustering_check [] = True"
| "clustering_check ((resource, ts) # rest) =
     (let lowNumbers = filter (\<lambda>t. t = Some 2 \<or> t = Some 3 \<or> t = Some 12) ts
      in if length lowNumbers > 1 then False else clustering_check rest)"

definition validateLowNumberClustering :: "jsnum list \<Rightarrow> terrain list \<Rightarrow> error + bool" where
  "validateLowNumberClustering tokenAssignments terrainTypes =
     (case collect_loop tokenAssignments terrainTypes [0..<19] [] of
        Inl e \<Rightarrow> Inl e
      | Inr resourceTokens \<Rightarrow> Inr (clustering_check resourceTokens))"

subsection \<open>\<open>generateValidAssignment\<close>\<close>

text \<open>
  \<open>[xs[i], xs[j]] = [xs[j], xs[i]]\<close>: both elements are read, then \<open>xs[i]\<close> and
  \<open>xs[j]\<close> are written in this order.
\<close>

definition swap :: "'a list \<Rightarrow> nat \<Rightarrow> nat \<Rightarrow> 'a list" where
  "swap xs i j = xs[i := xs ! j, j := xs ! i]"

text \<open>
  \<open>for (let i = xs.length - 1; i > 0; i--) { const j = Math.floor(Math.random() *
  (i + 1)); swap }\<close>, started at \<open>i\<close> with \<open>k\<close> calls of \<open>Math.random\<close> made before.
  It returns the array and the new number of calls.
\<close>

fun shuffle_loop :: "(nat \<Rightarrow> real) \<Rightarrow> nat \<Rightarrow> 'a list \<Rightarrow> nat \<Rightarrow> 'a list \<times> nat" where
  "shuffle_loop rnd 0 xs k = (xs, k)"
| "shuffle_loop rnd (Suc i) xs k =
     (let j = nat \<lfloor>rnd k * (real (Suc i) + 1)\<rfloor>
      in shuffle_loop rnd i (swap xs (Suc i) j) (k + 1))"

definition shuffle :: "(nat \<Rightarrow> real) \<Rightarrow> 'a list \<Rightarrow> nat \<Rightarrow> 'a list \<times> nat" where
  "shuffle rnd xs k = shuffle_loop rnd (length xs - 1) xs k"

text \<open>
  \<open>for (let i = 0; i < 19; i++) if (shuffledTerrains[i].name !== "Desert")
  tokenAssignments[i] = shuffledTokens[tokenIndex++];\<close>
\<close>

fun assign_loop ::
  "terrain list \<Rightarrow> int list \<Rightarrow> nat list \<Rightarrow> jsnum list \<Rightarrow> nat \<Rightarrow> error + jsnum list" where
  "assign_loop shuffledTerrains shuffledTokens [] tokenAssignments tokenIndex =
     Inr tokenAssignments"
| "assign_loop shuffledTerrains shuffledTokens (i # rest) tokenAssignments tokenIndex =
     (case name_at shuffledTerrains i of
        Inl e \<Rightarrow> Inl e
      | Inr n \<Rightarrow>
          if n \<noteq> ''Desert'' then
            assign_loop shuffledTerrains shuffledTokens rest
              (tokenAssignments[i := number_at shuffledTokens tokenIndex]) (tokenIndex + 1)
          else
            assign_loop shuffledTerrains shuffledTokens rest tokenAssignments tokenIndex)"

text \<open>The returned object \<open>{ terrains: shuffledTerrains, tokens: tokenAssignments }\<close>.\<close>

record assignment =
  asg_terrains :: "terrain list"
  asg_tokens :: "jsnum list"

text \<open>
  The two shuffles and the token assignment. The source has this block twice, in
  the body of the \<open>while\<close> loop and again after it; \<open>k\<close> is the number of calls of
  \<open>Math.random\<close> made before the block.
\<close>

definition generate_candidate :: "(nat \<Rightarrow> real) \<Rightarrow> nat \<Rightarrow> error + (assignment \<times> nat)" where
  "generate_candidate rnd k =
     (let terrainShuffle = shuffle rnd terrains k;
          shuffledTerrains = fst terrainShuffle;
          tokenShuffle = shuffle rnd tokens (snd terrainShuffle);
          shuffledTokens = fst tokenShuffle
      in case assign_loop shuffledTerrains shuffledTokens [0..<19] (replicate 19 (Some 0)) 0 of
           Inl e \<Rightarrow> Inl e
         | Inr tokenAssignments \<Rightarrow>
             Inr (\<lparr>asg_terrains = shuffledTerrains, asg_tokens = tokenAssignments\<rparr>,
                  snd tokenShuffle))"

text \<open>The condition of the \<open>if\<close>: three calls joined by \<open>&&\<close>, evaluated left to right.\<close>

definition validate_all :: "jsnum list \<Rightarrow> terrain list \<Rightarrow> error + bool" where
  "validate_all tokenAssignments terrainTypes =
     (case validateRedAdjacency tokenAssignments terrainTypes of
        Inl e \<Rightarrow> Inl e
      | Inr b1 \<Rightarrow>
          if \<not> b1 then Inr False
          else
            (case validateResourceDistribution tokenAssignments terrainTypes of
               Inl e \<Rightarrow> Inl e
             | Inr b2 \<Rightarrow>
                 if \<not> b2 then Inr False
                 else validateLowNumberClustering tokenAssignments terrainTypes))"

definition maxAttempts :: nat where
  "maxAttempts = 1000"

text \<open>
  The \<open>while (attempts < maxAttempts)\<close> loop. It ends with \<open>Some\<close> candidate when
  the \<open>return\<close> inside the loop is reached and with \<open>None\<close> when the loop condition
  fails.
\<close>

function attempt_loop ::
  "(nat \<Rightarrow> real) \<Rightarrow> nat \<Rightarrow> nat \<Rightarrow> error + (assignment option \<times> nat)" where
  "attempt_loop rnd attempts k =
     (if attempts < maxAttempts then
        (case generate_candidate rnd k of
           Inl e \<Rightarrow> Inl e
         | Inr (candidate, k') \<Rightarrow>
             (case validate_all (asg_tokens candidate) (asg_terrains candidate) of
                Inl e \<Rightarrow> Inl e
              | Inr ok \<Rightarrow>
                  if ok then Inr (Some candidate, k')
                  else attempt_loop rnd (attempts + 1) k'))
      else Inr (None, k))"
  by pat_completeness auto
termination
  by (relation "measure (\<lambda>(rnd, attempts, k). maxAttempts - attempts)") auto

declare attempt_loop.simps [simp del]

text \<open>
  What a call of the generator yields: the returned object, the arguments of each
  \<open>console.warn\<close> in order, and the number of calls of \<open>Math.random\<close>.
\<close>

record outcome =
  returned :: assignment
  warnings :: "jsval list list"
  draws :: nat

definition fallback_notice :: "jsval list" where
  "fallback_notice =
     [Str ''Could not generate valid Catan board after'', Num (int maxAttempts), Str ''attempts'']"

definition generateValidAssignment :: "(nat \<Rightarrow> real) \<Rightarrow> error + outcome" where
  "generateValidAssignment rnd =
     (case attempt_loop rnd 0 0 of
        Inl e \<Rightarrow> Inl e
      | Inr (Some candidate, k) \<Rightarrow>
          Inr \<lparr>returned = candidate, warnings = [], draws = k\<rparr>
      | Inr (None, k) \<Rightarrow>
          (case generate_candidate rnd k of
             Inl e \<Rightarrow> Inl e
           | Inr (candidate, k') \<Rightarrow>
               Inr \<lparr>returned = candidate, warnings = [fallback_notice], draws = k'\<rparr>))"

subsection \<open>Pip count of \<open>Hexagon\<close>\<close>

definition dotCount :: "int \<Rightarrow> int" where
  "dotCount tokenNumber = 6 - \<bar>7 - tokenNumber\<bar>"

definition isRed :: "int \<Rightarrow> bool" where
  "isRed tokenNumber \<longleftrightarrow> dotCount tokenNumber = 5"

definition textColor :: "int \<Rightarrow> string" where
  "textColor tokenNumber = (if isRed tokenNumber then ''#FF0000'' else ''#000000'')"

subsection \<open>The contract of \<open>Math.random\<close>\<close>

text \<open>
  ECMAScript specifies that \<open>Math.random()\<close> returns a number that is at least 0 and
  less than 1. Every statement about the generator below assumes this of the values
  drawn. Then \<open>Math.floor(Math.random() * (i + 1))\<close> is an index between 0 and \<open>i\<close>
  (\<open>draw_index_le\<close>), and as the shuffle loop starts at the last index of the array,
  both indices of every swap are inside the array. Outside this contract a swap in
  the source would read \<open>undefined\<close> and grow the array; \<open>swap\<close> does not model that.

  The source multiplies in double precision, where the product can round up to
  the next integer. The index it takes is still between 0 and \<open>i\<close>, so each run of
  the source is the run of the model on some sequence of reals in \<open>[0, 1)\<close> (one
  that leads to the same indices), and what is proved for all such sequences holds
  for the source. The sequences used as examples below have values 0, 1/2 and
  midpoints of the intervals \<open>[j / (i + 1), (j + 1) / (i + 1))\<close>, for which the
  rounded product gives the same index.
\<close>

definition unit_draws :: "(nat \<Rightarrow> real) \<Rightarrow> bool" where
  "unit_draws rnd \<longleftrightarrow> (\<forall>k. 0 \<le> rnd k \<and> rnd k < 1)"

subsection \<open>Vocabulary for the statements\<close>

text \<open>A position whose terrain is not the Desert, by the test the source uses.\<close>

definition non_desert :: "terrain list \<Rightarrow> nat \<Rightarrow> bool" where
  "non_desert ts i \<longleftrightarrow> name (ts ! i) \<noteq> ''Desert''"

text \<open>
  What every candidate built by \<open>generate_candidate\<close> satisfies: both arrays have 19
  entries, the terrains are a rearrangement of the table, a Desert position keeps
  the filler \<open>0\<close>, and the other positions hold, in index order, a rearrangement
  of the token table.
\<close>

definition well_formed :: "assignment \<Rightarrow> bool" where
  "well_formed a \<longleftrightarrow>
     length (asg_terrains a) = 19 \<and> length (asg_tokens a) = 19 \<and>
     mset (asg_terrains a) = mset terrains \<and>
     (\<forall>i<19. \<not> non_desert (asg_terrains a) i \<longrightarrow> asg_tokens a ! i = Some 0) \<and>
     (\<exists>sk. mset sk = mset tokens \<and>
        map ((!) (asg_tokens a)) (filter (non_desert (asg_terrains a)) [0..<19]) = map Some sk)"

text \<open>
  The red tokens and the low tokens of the source's comparisons, the neighbours a
  position has in \<open>adjacencyMap\<close>, and the tokens a dictionary holds under a name.
\<close>

definition red_token :: "jsnum \<Rightarrow> bool" where
  "red_token t \<longleftrightarrow> t = Some 6 \<or> t = Some 8"

definition low_token :: "jsnum \<Rightarrow> bool" where
  "low_token t \<longleftrightarrow> t = Some 2 \<or> t = Some 3 \<or> t = Some 12"

definition neighbours :: "nat \<Rightarrow> nat set" where
  "neighbours p = (case adjacencyMap p of None \<Rightarrow> {} | Some adj \<Rightarrow> set adj)"

definition tokens_in :: "resource_dict \<Rightarrow> string \<Rightarrow> jsnum list" where
  "tokens_in d n = (case map_of d n of None \<Rightarrow> [] | Some ts \<Rightarrow> ts)"

text \<open>
  The three fairness rules, stated on the returned object alone. \<open>red_separated\<close>:
  no position holding 6 or 8 has a non-Desert neighbour holding 6 or 8.
  \<open>six_eight_spread\<close>: among the positions of one non-Desert terrain name at most
  one holds 6 and at most one holds 8. \<open>low_spread\<close>: among them at most one holds
  2, 3 or 12.
\<close>

definition red_separated :: "assignment \<Rightarrow> bool" where
  "red_separated a \<longleftrightarrow>
     (\<forall>p<19. red_token (asg_tokens a ! p) \<longrightarrow>
        (\<forall>q\<in>neighbours p. non_desert (asg_terrains a) q \<longrightarrow> \<not> red_token (asg_tokens a ! q)))"

definition positions_with :: "assignment \<Rightarrow> string \<Rightarrow> (jsnum \<Rightarrow> bool) \<Rightarrow> nat set" where
  "positions_with a n P = {p. p < 19 \<and> name (asg_terrains a ! p) = n \<and> P (asg_tokens a ! p)}"

definition six_eight_spread :: "assignment \<Rightarrow> bool" where
  "six_eight_spread a \<longleftrightarrow>
     (\<forall>n. n \<noteq> ''Desert'' \<longrightarrow>
        card (positions_with a n (\<lambda>t. t = Some 6)) \<le> 1 \<and>
        card (positions_with a n (\<lambda>t. t = Some 8)) \<le> 1)"

definition low_spread :: "assignment \<Rightarrow> bool" where
  "low_spread a \<longleftrightarrow> (\<forall>n. n \<noteq> ''Desert'' \<longrightarrow> card (positions_with a n low_token) \<le> 1)"

text \<open>
  Each run of the candidate block makes 35 calls of \<open>Math.random\<close> (18 for the
  terrains, 17 for the tokens). \<open>rejected rnd k\<close>: the block run after \<open>k\<close> calls
  builds a candidate that fails validation. \<open>accepted rnd k c\<close>: it builds \<open>c\<close> and
  \<open>c\<close> passes.
\<close>

definition rejected :: "(nat \<Rightarrow> real) \<Rightarrow> nat \<Rightarrow> bool" where
  "rejected rnd k \<longleftrightarrow>
     (\<exists>c. generate_candidate rnd k = Inr (c, k + 35) \<and>
          validate_all (asg_tokens c) (asg_terrains c) = Inr False)"

definition accepted :: "(nat \<Rightarrow> real) \<Rightarrow> nat \<Rightarrow> assignment \<Rightarrow> bool" where
  "accepted rnd k c \<longleftrightarrow>
     generate_candidate rnd k = Inr (c, k + 35) \<and>
     validate_all (asg_tokens c) (asg_terrains c) = Inr True"

subsection \<open>Concrete random sources and the boards they give\<close>

text \<open>
  \<open>zero_rnd\<close> and \<open>half_rnd\<close> always return 0 and 1/2. \<open>good_rnd\<close> returns 0 for the
  first 35 calls and then the 35 values of \<open>good_draws\<close>, each in the middle of the
  interval that \<open>Math.floor\<close> maps to the intended index. \<open>late_rnd\<close> returns 0 for
  the first 35000 calls and 1/2 afterwards.
\<close>

definition zero_rnd :: "nat \<Rightarrow> real" where
  "zero_rnd k = 0"

definition good_draws :: "real list" where
  "good_draws =
     [27/38, 7/12, 19/34, 19/32, 3/10, 23/28, 23/26, 7/8, 9/22, 13/20, 7/18, 9/16,
      1/2, 3/4, 7/10, 1/8, 1/6, 1/4,
      5/36, 13/34, 31/32, 17/30, 1/4, 15/26, 11/24, 15/22, 13/20, 5/18, 7/16, 3/14,
      1/12, 3/10, 5/8, 5/6, 1/4]"

definition good_rnd :: "nat \<Rightarrow> real" where
  "good_rnd k = (if 35 \<le> k \<and> k < 70 then good_draws ! (k - 35) else 0)"

definition late_rnd :: "nat \<Rightarrow> real" where
  "late_rnd k = (if k < 35000 then 0 else 1 / 2)"

definition half_rnd :: "nat \<Rightarrow> real" where
  "half_rnd k = 1 / 2"

definition rotated_board :: assignment where
  "rotated_board =
     \<lparr>asg_terrains =
        [Wood, Wood, Wood, Wheat, Wheat, Wheat, Wheat, Sheep, Sheep, Sheep, Sheep,
         Ore, Ore, Ore, Brick, Brick, Brick, Desert, Wood],
      asg_tokens =
        map Some [3, 3, 4, 4, 5, 5, 6, 6, 8, 8, 9, 9, 10, 10, 11, 11, 12, 0, 2]\<rparr>"

definition good_board :: assignment where
  "good_board =
     \<lparr>asg_terrains =
        [Wood, Wood, Wheat, Wood, Brick, Wheat, Sheep, Ore, Wood, Wheat, Ore, Brick,
         Desert, Sheep, Wheat, Brick, Sheep, Sheep, Ore],
      asg_tokens =
        map Some [4, 9, 8, 10, 8, 2, 3, 10, 12, 11, 9, 5, 0, 6, 4, 6, 11, 5, 3]\<rparr>"

definition half_board :: assignment where
  "half_board =
     \<lparr>asg_terrains =
        [Wood, Brick, Wood, Ore, Wood, Sheep, Wood, Brick, Wheat, Sheep, Wheat, Ore,
         Wheat, Ore, Wheat, Brick, Sheep, Desert, Sheep],
      asg_tokens =
        map Some [2, 12, 3, 10, 3, 9, 4, 11, 4, 8, 5, 9, 5, 10, 6, 11, 6, 0, 8]\<rparr>"

text \<open>\<open>good_then_half\<close> agrees with \<open>good_rnd\<close> on the first 70 calls only.\<close>

definition good_then_half :: "nat \<Rightarrow> real" where
  "good_then_half k = (if k < 70 then good_rnd k else 1 / 2)"

subsection \<open>The hex grid laid out by \<open>getHexPositions\<close>\<close>

text \<open>
  \<open>getHexPositions\<close> numbers the hexes row by row over \<open>rowCounts\<close> and places the
  hex in column \<open>col\<close> of a row of \<open>count\<close> hexes (\<open>cnt\<close> below) at
  \<open>x = startX + col * w\<close> with \<open>startX = -(count - 1) * w / 2\<close> and at
  \<open>z = (rowIndex - 2) * h\<close>, where \<open>w = hexWidth * spacingMultiplier\<close>,
  \<open>h = hexHeight * spacingMultiplier\<close> and \<open>hexHeight / hexWidth = sqrt 3 / 2\<close>.
  Measuring \<open>x\<close> in units of \<open>w / 2\<close> and \<open>z\<close> in units of \<open>h\<close> gives the integer
  coordinates below, and the squared distance of two centres is
  \<open>(w / 2)\<^sup>2 * (dx\<^sup>2 + 3 * dz\<^sup>2)\<close>. Two hexes of this grid share an edge exactly when
  their centres are one hex width \<open>w\<close> apart, that is when \<open>dx\<^sup>2 + 3 * dz\<^sup>2 = 4\<close>.
\<close>

definition rowCounts :: "nat list" where
  "rowCounts = [3, 4, 5, 4, 3]"

fun hex_centres :: "nat list \<Rightarrow> int \<Rightarrow> (int \<times> int) list" where
  "hex_centres [] rowIndex = []"
| "hex_centres (cnt # rest) rowIndex =
     map (\<lambda>col. (2 * int col - (int cnt - 1), rowIndex - 2)) [0..<cnt] @
     hex_centres rest (rowIndex + 1)"

definition centre :: "nat \<Rightarrow> int \<times> int" where
  "centre p = hex_centres rowCounts 0 ! p"

definition shares_edge :: "nat \<Rightarrow> nat \<Rightarrow> bool" where
  "shares_edge p q \<longleftrightarrow>
     p < 19 \<and> q < 19 \<and>
     (fst (centre p) - fst (centre q))\<^sup>2 + 3 * (snd (centre p) - snd (centre q))\<^sup>2 = 4"

definition edge_neighbours :: "nat \<Rightarrow> nat list" where
  "edge_neighbours p = filter (shares_edge p) [0..<19]"

subsection \<open>The generator on a store of arrays\<close>

text \<open>
  The functions above pass arrays as values. In the source the arrays are mutable
  objects held by reference: \<open>terrains\<close> and \<open>tokens\<close> are captured by the closure,
  \<open>[...terrains]\<close>, \<open>[...tokens]\<close> and \<open>new Array(19).fill(0)\<close> create new arrays, and
  the swaps and the token assignment write into an array through its reference.
  The second model below keeps the arrays in a store with one heap for each element
  type. An array reference is an index into its heap, an allocation appends to the
  heap, and a write replaces the array stored at the reference. The validation
  functions only read their two arguments, so they are applied to the arrays the
  references point to. The returned object holds two references.
\<close>

record store =
  terrain_heap :: "terrain list list"
  number_heap :: "jsnum list list"

definition alloc :: "'a list \<Rightarrow> 'a list list \<Rightarrow> nat \<times> 'a list list" where
  "alloc xs heap = (length heap, heap @ [xs])"

text \<open>The shuffle loop on the array at reference \<open>a\<close>.\<close>

fun shuffle_at :: "(nat \<Rightarrow> real) \<Rightarrow> nat \<Rightarrow> nat \<Rightarrow> 'a list list \<Rightarrow> nat \<Rightarrow> 'a list list \<times> nat" where
  "shuffle_at rnd a 0 heap k = (heap, k)"
| "shuffle_at rnd a (Suc i) heap k =
     (let j = nat \<lfloor>rnd k * (real (Suc i) + 1)\<rfloor>
      in shuffle_at rnd a i (heap[a := swap (heap ! a) (Suc i) j]) (k + 1))"

text \<open>
  The assignment loop: it reads \<open>shuffledTerrains\<close>, reads the array at reference
  \<open>shuffledTokens\<close> and writes the array at reference \<open>tokenAssignments\<close>.
\<close>

fun assign_at ::
  "terrain list \<Rightarrow> nat \<Rightarrow> nat \<Rightarrow> nat list \<Rightarrow> jsnum list list \<Rightarrow> nat \<Rightarrow> error + jsnum list list" where
  "assign_at shuffledTerrains shuffledTokens tokenAssignments [] heap tokenIndex = Inr heap"
| "assign_at shuffledTerrains shuffledTokens tokenAssignments (i # rest) heap tokenIndex =
     (case name_at shuffledTerrains i of
        Inl e \<Rightarrow> Inl e
      | Inr n \<Rightarrow>
          if n \<noteq> ''Desert'' then
            assign_at shuffledTerrains shuffledTokens tokenAssignments rest
              (heap[tokenAssignments :=
                 (heap ! tokenAssignments)[i := token_at (heap ! shuffledTokens) tokenIndex]])
              (tokenIndex + 1)
          else
            assign_at shuffledTerrains shuffledTokens tokenAssignments rest heap tokenIndex)"

record assignment_refs =
  terrains_ref :: nat
  tokens_ref :: nat

text \<open>
  The candidate block. \<open>terrainsRef\<close> and \<open>tokensRef\<close> are the references the
  closure holds to the two tables.
\<close>

definition generate_candidate_st ::
  "(nat \<Rightarrow> real) \<Rightarrow> nat \<Rightarrow> nat \<Rightarrow> nat \<Rightarrow> store \<Rightarrow> error + (assignment_refs \<times> nat \<times> store)" where
  "generate_candidate_st rnd terrainsRef tokensRef k s =
     (let terrainCopy = alloc (terrain_heap s ! terrainsRef) (terrain_heap s);
          shuffledTerrains = fst terrainCopy;
          terrainShuffle =
            shuffle_at rnd shuffledTerrains (length (snd terrainCopy ! shuffledTerrains) - 1)
              (snd terrainCopy) k;
          tokenCopy = alloc (number_heap s ! tokensRef) (number_heap s);
          shuffledTokens = fst tokenCopy;
          tokenShuffle =
            shuffle_at rnd shuffledTokens (length (snd tokenCopy ! shuffledTokens) - 1)
              (snd tokenCopy) (snd terrainShuffle);
          filled = alloc (replicate 19 (Some 0)) (fst tokenShuffle);
          tokenAssignments = fst filled
      in case assign_at (fst terrainShuffle ! shuffledTerrains) shuffledTokens tokenAssignments
                [0..<19] (snd filled) 0 of
           Inl e \<Rightarrow> Inl e
         | Inr heap \<Rightarrow>
             Inr (\<lparr>terrains_ref = shuffledTerrains, tokens_ref = tokenAssignments\<rparr>,
                  snd tokenShuffle,
                  \<lparr>terrain_heap = fst terrainShuffle, number_heap = heap\<rparr>))"

function attempt_loop_st ::
  "(nat \<Rightarrow> real) \<Rightarrow> nat \<Rightarrow> nat \<Rightarrow> nat \<Rightarrow> nat \<Rightarrow> store \<Rightarrow>
   error + (assignment_refs option \<times> nat \<times> store)" where
  "attempt_loop_st rnd terrainsRef tokensRef attempts k s =
     (if attempts < maxAttempts then
        (case generate_candidate_st rnd terrainsRef tokensRef k s of
           Inl e \<Rightarrow> Inl e
         | Inr (candidate, k', s') \<Rightarrow>
             (case validate_all (number_heap s' ! tokens_ref candidate)
                     (terrain_heap s' ! terrains_ref candidate) of
                Inl e \<Rightarrow> Inl e
              | Inr ok \<Rightarrow>
                  if ok then Inr (Some candidate, k', s')
                  else attempt_loop_st rnd terrainsRef tokensRef (attempts + 1) k' s'))
      else Inr (None, k, s))"
  by pat_completeness auto
termination
  by (relation "measure (\<lambda>(rnd, terrainsRef, tokensRef, attempts, k, s). maxAttempts - attempts)")
    auto

declare attempt_loop_st.simps [simp del]

text \<open>The result: the returned references, the warnings, the calls made, the store.\<close>

definition generateValidAssignment_st ::
  "(nat \<Rightarrow> real) \<Rightarrow> nat \<Rightarrow> nat \<Rightarrow> store \<Rightarrow>
   error + (assignment_refs \<times> jsval list list \<times> nat \<times> store)" where
  "generateValidAssignment_st rnd terrainsRef tokensRef s =
     (case attempt_loop_st rnd terrainsRef tokensRef 0 0 s of
        Inl e \<Rightarrow> Inl e
      | Inr (Some candidate, k, s') \<Rightarrow> Inr (candidate, [], k, s')
      | Inr (None, k, s') \<Rightarrow>
          (case generate_candidate_st rnd terrainsRef tokensRef k s' of
             Inl e \<Rightarrow> Inl e
           | Inr (candidate, k', s'') \<Rightarrow> Inr (candidate, [fallback_notice], k', s'')))"

text \<open>
  \<open>tables_at\<close>: the two references point to arrays holding the tables.
  \<open>extends s s'\<close>: \<open>s'\<close> has every array of \<open>s\<close>, unchanged, at the same reference, and
  possibly more arrays after them. \<open>deref\<close> reads the object a pair of references
  stands for.
\<close>

definition tables_at :: "nat \<Rightarrow> nat \<Rightarrow> store \<Rightarrow> bool" where
  "tables_at terrainsRef tokensRef s \<longleftrightarrow>
     terrainsRef < length (terrain_heap s) \<and> terrain_heap s ! terrainsRef = terrains \<and>
     tokensRef < length (number_heap s) \<and> number_heap s ! tokensRef = map Some tokens"

definition extends :: "store \<Rightarrow> store \<Rightarrow> bool" where
  "extends s s' \<longleftrightarrow>
     (\<exists>ts ns. terrain_heap s' = terrain_heap s @ ts \<and> number_heap s' = number_heap s @ ns)"

definition deref :: "store \<Rightarrow> assignment_refs \<Rightarrow> assignment" where
  "deref s obj =
     \<lparr>asg_terrains = terrain_heap s ! terrains_ref obj,
      asg_tokens = number_heap s ! tokens_ref obj\<rparr>"

definition table_store :: store where
  "table_store = \<lparr>terrain_heap = [terrains], number_heap = [map Some tokens]\<rparr>"

text \<open>The store after the call on \<open>good_rnd\<close> from \<open>table_store\<close>: two attempts, five new arrays.\<close>

definition good_store :: store where
  "good_store =
     \<lparr>terrain_heap =
        [terrains, asg_terrains rotated_board, asg_terrains good_board],
      number_heap =
        [map Some tokens,
         map Some [3, 3, 4, 4, 5, 5, 6, 6, 8, 8, 9, 9, 10, 10, 11, 11, 12, 2],
         asg_tokens rotated_board,
         map Some [4, 9, 8, 10, 8, 2, 3, 10, 12, 11, 9, 5, 6, 4, 6, 11, 5, 3],
         asg_tokens good_board]\<rparr>"

section \<open>Properties\<close>

subsection \<open>The shuffle\<close>

lemma draw_index_le:
  assumes "0 \<le> r" "r < 1"
  shows "nat \<lfloor>r * (real i + 1)\<rfloor> \<le> i"
proof -
  have "r * (real i + 1) < real i + 1"
    using assms by (simp add: mult_less_cancel_right2)
  then have "\<lfloor>r * (real i + 1)\<rfloor> < int i + 1"
    using floor_less_iff [of "r * (real i + 1)" "int i + 1"] by simp
  then show ?thesis by linarith
qed

lemma swap_length [simp]: "length (swap xs i j) = length xs"
  by (simp add: swap_def)

lemma swap_mset: "i < length xs \<Longrightarrow> j < length xs \<Longrightarrow> mset (swap xs i j) = mset xs"
  unfolding swap_def by (rule mset_swap)

lemma shuffle_loop_draws: "snd (shuffle_loop rnd i xs k) = k + i"
  by (induction i arbitrary: xs k) (simp_all add: Let_def)

lemma shuffle_loop_length: "length (fst (shuffle_loop rnd i xs k)) = length xs"
  by (induction i arbitrary: xs k) (simp_all add: Let_def)

lemma shuffle_loop_mset:
  "unit_draws rnd \<Longrightarrow> i < length xs \<Longrightarrow> mset (fst (shuffle_loop rnd i xs k)) = mset xs"
proof (induction i arbitrary: xs k)
  case 0
  then show ?case by simp
next
  case (Suc i)
  let ?j = "nat \<lfloor>rnd k * (real (Suc i) + 1)\<rfloor>"
  have "?j \<le> Suc i"
    using Suc.prems(1) by (intro draw_index_le) (simp_all add: unit_draws_def)
  with Suc.prems have "mset (swap xs (Suc i) ?j) = mset xs"
    by (intro swap_mset) simp_all
  moreover have "mset (fst (shuffle_loop rnd i (swap xs (Suc i) ?j) (k + 1))) = mset (swap xs (Suc i) ?j)"
    using Suc.prems by (intro Suc.IH) simp_all
  ultimately show ?case by (simp add: Let_def)
qed

lemma shuffle_loop_local:
  "(\<forall>j<i. rnd' (k' + j) = rnd (k + j)) \<Longrightarrow>
   fst (shuffle_loop rnd' i xs k') = fst (shuffle_loop rnd i xs k)"
proof (induction i arbitrary: xs k k')
  case 0
  then show ?case by simp
next
  case (Suc i)
  from Suc.prems have h0: "rnd' k' = rnd k" by (metis add.right_neutral zero_less_Suc)
  have step: "\<forall>j<i. rnd' ((k' + 1) + j) = rnd ((k + 1) + j)"
  proof (intro allI impI)
    fix j assume "j < i"
    then have "Suc j < Suc i" by simp
    with Suc.prems have "rnd' (k' + Suc j) = rnd (k + Suc j)" by blast
    then show "rnd' ((k' + 1) + j) = rnd ((k + 1) + j)" by simp
  qed
  have "fst (shuffle_loop rnd' i (swap xs (Suc i) j) (k' + 1)) =
        fst (shuffle_loop rnd i (swap xs (Suc i) j) (k + 1))" for j
    using Suc.IH [where k = "k + 1" and k' = "k' + 1"] step by blast
  then show ?case by (simp add: Let_def h0)
qed

lemma shuffle_draws: "snd (shuffle rnd xs k) = k + (length xs - 1)"
  by (simp add: shuffle_def shuffle_loop_draws)

lemma shuffle_length: "length (fst (shuffle rnd xs k)) = length xs"
  by (simp add: shuffle_def shuffle_loop_length)

lemma shuffle_mset: "unit_draws rnd \<Longrightarrow> mset (fst (shuffle rnd xs k)) = mset xs"
proof (cases xs)
  case Nil
  then show ?thesis by (simp add: shuffle_def)
next
  case (Cons x ys)
  assume "unit_draws rnd"
  then show ?thesis unfolding shuffle_def
    by (rule shuffle_loop_mset) (simp add: Cons)
qed

lemma shuffle_local:
  "(\<forall>j<length xs - 1. rnd' (k' + j) = rnd (k + j)) \<Longrightarrow>
   fst (shuffle rnd' xs k') = fst (shuffle rnd xs k)"
  unfolding shuffle_def by (rule shuffle_loop_local)

subsection \<open>Building a candidate\<close>

lemma name_at_in_range [simp]: "i < length ts \<Longrightarrow> name_at ts i = Inr (name (ts ! i))"
  by (simp add: name_at_def)

lemma terrains_length: "length terrains = 19"
  by (simp add: terrains_def)

lemma tokens_length: "length tokens = 18"
  by (simp add: tokens_def)

lemma filter_positions:
  "length (filter (\<lambda>i. P (xs ! i)) [0..<length xs]) = length (filter P xs)"
proof -
  have "filter P (map ((!) xs) [0..<length xs]) = map ((!) xs) (filter (P \<circ> (!) xs) [0..<length xs])"
    by (rule filter_map)
  then have "length (filter P xs) = length (filter (P \<circ> (!) xs) [0..<length xs])"
    by (simp add: map_nth)
  then show ?thesis by (simp add: comp_def)
qed

lemma non_desert_terrains: "length (filter (\<lambda>t. name t \<noteq> ''Desert'') terrains) = 18"
  by (simp add: terrains_def)

lemma desert_terrains: "length (filter (\<lambda>t. name t = ''Desert'') terrains) = 1"
  by (simp add: terrains_def)

lemma length_filter_mset_eq:
  "mset xs = mset ys \<Longrightarrow> length (filter P xs) = length (filter P ys)"
  by (metis mset_filter size_mset)

lemma assign_loop_result:
  assumes "distinct is" and "\<forall>i\<in>set is. i < length st" and "\<forall>i\<in>set is. i < length ta"
  shows "\<exists>ta'. assign_loop st sk is ta t = Inr ta' \<and> length ta' = length ta \<and>
      (\<forall>i. i \<notin> set (filter (non_desert st) is) \<longrightarrow> ta' ! i = ta ! i) \<and>
      map ((!) ta') (filter (non_desert st) is) =
        map (number_at sk) [t ..< t + length (filter (non_desert st) is)]"
  using assms
proof (induction "is" arbitrary: ta t)
  case Nil
  then show ?case by simp
next
  case (Cons i rest)
  define ps where "ps = filter (non_desert st) rest"
  have i_st: "i < length st" and i_ta: "i < length ta" and i_new: "i \<notin> set rest"
    and d: "distinct rest" and r_st: "\<forall>i\<in>set rest. i < length st"
    and r_ta: "\<forall>i\<in>set rest. i < length ta"
    using Cons.prems by simp_all
  have i_ps: "i \<notin> set ps" using i_new by (simp add: ps_def)
  show ?case
  proof (cases "non_desert st i")
    case True
    define ta1 where "ta1 = ta[i := number_at sk t]"
    have len1: "length ta1 = length ta" by (simp add: ta1_def)
    have "\<forall>i\<in>set rest. i < length ta1" using r_ta len1 by simp
    from Cons.IH [OF d r_st this, of "t + 1"]
    obtain ta' where run: "assign_loop st sk rest ta1 (t + 1) = Inr ta'"
      and len: "length ta' = length ta1"
      and keep: "\<forall>j. j \<notin> set ps \<longrightarrow> ta' ! j = ta1 ! j"
      and new: "map ((!) ta') ps = map (number_at sk) [t + 1 ..< t + 1 + length ps]"
      unfolding ps_def by blast
    have "ta' ! i = ta1 ! i" using keep i_ps by blast
    then have at_i: "ta' ! i = number_at sk t"
      using i_ta by (simp add: ta1_def)
    have "[t ..< t + Suc (length ps)] = t # [Suc t ..< t + Suc (length ps)]"
      by (rule upt_conv_Cons) simp
    then have upt: "[t ..< t + Suc (length ps)] = t # [t + 1 ..< t + 1 + length ps]"
      by simp
    have flt: "filter (non_desert st) (i # rest) = i # ps"
      using True by (simp add: ps_def)
    have "name (st ! i) \<noteq> ''Desert''" using True by (simp add: non_desert_def)
    then have r1: "assign_loop st sk (i # rest) ta t = Inr ta'"
      using i_st run by (simp add: ta1_def)
    have r2: "length ta' = length ta" using len len1 by simp
    have r3: "\<forall>j. j \<notin> set (filter (non_desert st) (i # rest)) \<longrightarrow> ta' ! j = ta ! j"
    proof (intro allI impI)
      fix j assume "j \<notin> set (filter (non_desert st) (i # rest))"
      then have "j \<noteq> i" and "j \<notin> set ps" unfolding flt by simp_all
      then show "ta' ! j = ta ! j" using keep by (simp add: ta1_def)
    qed
    have r4: "map ((!) ta') (filter (non_desert st) (i # rest)) =
        map (number_at sk) [t ..< t + length (filter (non_desert st) (i # rest))]"
      by (simp only: flt list.map at_i new upt length_Cons)
    from r1 r2 r3 r4 show ?thesis by blast
  next
    case False
    from Cons.IH [OF d r_st r_ta, of t]
    obtain ta' where run: "assign_loop st sk rest ta t = Inr ta'"
      and len: "length ta' = length ta"
      and keep: "\<forall>j. j \<notin> set ps \<longrightarrow> ta' ! j = ta ! j"
      and new: "map ((!) ta') ps = map (number_at sk) [t ..< t + length ps]"
      unfolding ps_def by blast
    have flt: "filter (non_desert st) (i # rest) = ps"
      using False by (simp add: ps_def)
    have "name (st ! i) = ''Desert''" using False by (simp add: non_desert_def)
    then have r1: "assign_loop st sk (i # rest) ta t = Inr ta'"
      using i_st run by simp
    from r1 len keep new show ?thesis unfolding flt by blast
  qed
qed

lemma map_number_at: "map (number_at sk) [0..<length sk] = map Some sk"
  by (rule nth_equalityI) (simp_all add: number_at_def)

lemma non_desert_count:
  assumes "length st = 19" and "mset st = mset terrains"
  shows "length (filter (non_desert st) [0..<19]) = 18"
proof -
  have "length (filter (\<lambda>i. name (st ! i) \<noteq> ''Desert'') [0..<length st]) =
        length (filter (\<lambda>t. name t \<noteq> ''Desert'') st)"
    by (rule filter_positions)
  also have "\<dots> = length (filter (\<lambda>t. name t \<noteq> ''Desert'') terrains)"
    using assms(2) by (rule length_filter_mset_eq)
  finally show ?thesis
    using assms(1) non_desert_terrains by (simp add: non_desert_def [abs_def])
qed

lemma generate_candidate_ok:
  assumes "unit_draws rnd"
  shows "\<exists>c. generate_candidate rnd k = Inr (c, k + 35) \<and> well_formed c"
proof -
  define st where "st = fst (shuffle rnd terrains k)"
  define k1 where "k1 = snd (shuffle rnd terrains k)"
  define sk where "sk = fst (shuffle rnd tokens k1)"
  define k2 where "k2 = snd (shuffle rnd tokens k1)"
  have st_len: "length st = 19"
    by (simp add: st_def shuffle_length terrains_length)
  have st_mset: "mset st = mset terrains"
    using assms by (simp add: st_def shuffle_mset)
  have sk_len: "length sk = 18"
    by (simp add: sk_def shuffle_length tokens_length)
  have sk_mset: "mset sk = mset tokens"
    using assms by (simp add: sk_def shuffle_mset)
  have k2_eq: "k2 = k + 35"
    by (simp add: k2_def k1_def shuffle_draws terrains_length tokens_length)
  have cnt: "length (filter (non_desert st) [0..<19]) = 18"
    using st_len st_mset by (rule non_desert_count)
  have "\<exists>ta'. assign_loop st sk [0..<19] (replicate 19 (Some 0)) 0 = Inr ta' \<and>
      length ta' = length (replicate 19 (Some (0::int))) \<and>
      (\<forall>i. i \<notin> set (filter (non_desert st) [0..<19]) \<longrightarrow> ta' ! i = replicate 19 (Some 0) ! i) \<and>
      map ((!) ta') (filter (non_desert st) [0..<19]) =
        map (number_at sk) [0 ..< 0 + length (filter (non_desert st) [0..<19])]"
    by (rule assign_loop_result) (simp_all add: st_len)
  then obtain ta' where run: "assign_loop st sk [0..<19] (replicate 19 (Some 0)) 0 = Inr ta'"
    and len: "length ta' = 19"
    and keep: "\<forall>i. i \<notin> set (filter (non_desert st) [0..<19]) \<longrightarrow> ta' ! i = replicate 19 (Some 0) ! i"
    and new: "map ((!) ta') (filter (non_desert st) [0..<19]) =
        map (number_at sk) [0 ..< 0 + length (filter (non_desert st) [0..<19])]"
    by auto
  have new': "map ((!) ta') (filter (non_desert st) [0..<19]) = map Some sk"
    using new map_number_at [of sk] by (simp add: cnt sk_len)
  have desert: "\<forall>i<19. \<not> non_desert st i \<longrightarrow> ta' ! i = Some 0"
  proof (intro allI impI)
    fix i :: nat assume "i < 19" and "\<not> non_desert st i"
    then have "ta' ! i = replicate 19 (Some 0) ! i" using keep by simp
    then show "ta' ! i = Some 0" using \<open>i < 19\<close> by simp
  qed
  define c where "c = \<lparr>asg_terrains = st, asg_tokens = ta'\<rparr>"
  have "generate_candidate rnd k = Inr (c, k + 35)"
    using run k2_eq
    by (simp add: generate_candidate_def Let_def c_def st_def [symmetric] k1_def [symmetric]
        sk_def [symmetric] k2_def [symmetric])
  moreover have "well_formed c"
    unfolding well_formed_def c_def using st_len len st_mset desert sk_mset new' by auto
  ultimately show ?thesis by blast
qed

subsection \<open>The validation functions\<close>

lemma token_at_in_range [simp]: "i < length ta \<Longrightarrow> token_at ta i = ta ! i"
  by (simp add: token_at_def)

lemma red_neighbour_False:
  "red_neighbour ta tt adj = Inr False \<Longrightarrow>
   \<forall>q\<in>set adj. non_desert tt q \<longrightarrow> \<not> red_token (token_at ta q)"
proof (induction adj)
  case Nil
  then show ?case by simp
next
  case (Cons q rest)
  then show ?case
    by (auto simp: non_desert_def red_token_def Let_def name_at_def
        split: sum.splits if_splits)
qed

lemma red_neighbour_total:
  "\<forall>q\<in>set adj. q < length tt \<Longrightarrow> \<exists>b. red_neighbour ta tt adj = Inr b"
  by (induction adj) (auto simp: Let_def)

lemma red_loop_True:
  "red_loop ta tt is = Inr True \<Longrightarrow>
   \<forall>i\<in>set is. non_desert tt i \<and> red_token (token_at ta i) \<longrightarrow>
     (\<forall>q\<in>neighbours i. non_desert tt q \<longrightarrow> \<not> red_token (token_at ta q))"
proof (induction "is")
  case Nil
  then show ?case by simp
next
  case (Cons i rest)
  show ?case
  proof (cases "non_desert tt i \<and> red_token (token_at ta i)")
    case True
    with Cons.prems obtain adj where adj: "adjacencyMap i = Some adj"
      and nb: "red_neighbour ta tt adj = Inr False"
      and rest: "red_loop ta tt rest = Inr True"
      by (auto simp: non_desert_def red_token_def Let_def name_at_def
          split: sum.splits if_splits option.splits)
    have "\<forall>q\<in>neighbours i. non_desert tt q \<longrightarrow> \<not> red_token (token_at ta q)"
      using red_neighbour_False [OF nb] adj by (simp add: neighbours_def)
    with Cons.IH [OF rest] show ?thesis by simp
  next
    case False
    with Cons.prems have "red_loop ta tt rest = Inr True"
      by (auto simp: non_desert_def red_token_def Let_def name_at_def
          split: sum.splits if_splits option.splits)
    with Cons.IH False show ?thesis by auto
  qed
qed

lemma adjacency_table:
  "\<forall>i\<in>set [0..<19]. case adjacencyMap i of None \<Rightarrow> False | Some adj \<Rightarrow> list_all (\<lambda>q. q < 19) adj"
  by code_simp

lemma adjacency_in_range:
  assumes "i < 19"
  shows "\<exists>adj. adjacencyMap i = Some adj \<and> (\<forall>q\<in>set adj. q < 19)"
proof -
  from assms have "i \<in> set [0..<19]" by simp
  with adjacency_table
  have "case adjacencyMap i of None \<Rightarrow> False | Some adj \<Rightarrow> list_all (\<lambda>q. q < 19) adj"
    by blast
  then show ?thesis by (cases "adjacencyMap i") (auto simp: list_all_iff)
qed

lemma red_loop_total:
  assumes "length tt = 19"
  shows "\<forall>i\<in>set is. i < 19 \<Longrightarrow> \<exists>b. red_loop ta tt is = Inr b"
proof (induction "is")
  case Nil
  then show ?case by auto
next
  case (Cons i rest)
  then have i: "i < 19" and "\<forall>i\<in>set rest. i < 19" by simp_all
  with Cons.IH obtain b where rest: "red_loop ta tt rest = Inr b" by blast
  from adjacency_in_range [OF i] obtain adj where adj: "adjacencyMap i = Some adj"
    and "\<forall>q\<in>set adj. q < 19" by blast
  then have "\<forall>q\<in>set adj. q < length tt" using assms by simp
  from red_neighbour_total [OF this] obtain f where nb: "red_neighbour ta tt adj = Inr f"
    by blast
  show ?case using i assms rest adj nb by (auto simp: Let_def)
qed

lemma collect_loop_total:
  "\<forall>i\<in>set is. i < length tt \<Longrightarrow> \<exists>d'. collect_loop ta tt is d = Inr d'"
  by (induction "is" arbitrary: d) auto

lemma validate_all_total:
  assumes "length tt = 19"
  shows "\<exists>b. validate_all ta tt = Inr b"
proof -
  have "\<exists>b. red_loop ta tt [0..<19] = Inr b"
    using assms by (rule red_loop_total) simp
  moreover have "\<exists>d'. collect_loop ta tt [0..<19] [] = Inr d'"
    by (rule collect_loop_total) (simp add: assms)
  ultimately show ?thesis
    by (auto simp: validate_all_def validateRedAdjacency_def validateResourceDistribution_def
        validateLowNumberClustering_def)
qed

lemma tokens_in_Cons:
  "tokens_in ((r, ts) # d) n = (if r = n then ts else tokens_in d n)"
  by (simp add: tokens_in_def)

lemma tokens_in_Nil [simp]: "tokens_in [] n = []"
  by (simp add: tokens_in_def)

lemma push_token_tokens_in:
  "tokens_in (push_token r t d) n = (if n = r then tokens_in d r @ [t] else tokens_in d n)"
proof (induction d)
  case Nil
  then show ?case by (simp add: tokens_in_Cons)
next
  case (Cons e d)
  obtain r' ts where e: "e = (r', ts)" by (cases e)
  show ?case using Cons.IH by (auto simp: e tokens_in_Cons)
qed

lemma collect_loop_tokens_in:
  assumes "n \<noteq> ''Desert''"
  shows "collect_loop ta tt is d = Inr d' \<Longrightarrow> \<forall>i\<in>set is. i < length tt \<Longrightarrow>
     tokens_in d' n = tokens_in d n @ map (token_at ta) (filter (\<lambda>i. name (tt ! i) = n) is)"
proof (induction "is" arbitrary: d)
  case Nil
  then show ?case by simp
next
  case (Cons i rest)
  then have i: "i < length tt" and rest: "\<forall>i\<in>set rest. i < length tt" by simp_all
  show ?case
  proof (cases "name (tt ! i) = ''Desert''")
    case True
    with Cons.prems(1) i have "collect_loop ta tt rest d = Inr d'" by simp
    from Cons.IH [OF this rest] True assms show ?thesis by simp
  next
    case False
    with Cons.prems(1) i
    have "collect_loop ta tt rest (push_token (name (tt ! i)) (token_at ta i) d) = Inr d'"
      by simp
    from Cons.IH [OF this rest] show ?thesis
      by (simp add: push_token_tokens_in)
  qed
qed

lemma distribution_check_sound:
  "distribution_check d \<Longrightarrow>
   length (filter (\<lambda>t. t = Some 6) (tokens_in d n)) \<le> 1 \<and>
   length (filter (\<lambda>t. t = Some 8) (tokens_in d n)) \<le> 1"
proof (induction d)
  case Nil
  then show ?case by simp
next
  case (Cons e d)
  obtain r ts where e: "e = (r, ts)" by (cases e)
  from Cons.prems have here: "length (filter (\<lambda>t. t = Some 6) ts) \<le> 1 \<and>
      length (filter (\<lambda>t. t = Some 8) ts) \<le> 1" and rest: "distribution_check d"
    by (auto simp: e Let_def split: if_splits)
  show ?case using here Cons.IH [OF rest] by (simp add: e tokens_in_Cons)
qed

lemma clustering_check_sound:
  "clustering_check d \<Longrightarrow> length (filter low_token (tokens_in d n)) \<le> 1"
proof (induction d)
  case Nil
  then show ?case by simp
next
  case (Cons e d)
  obtain r ts where e: "e = (r, ts)" by (cases e)
  from Cons.prems have here: "length (filter low_token ts) \<le> 1" and rest: "clustering_check d"
    by (auto simp: e Let_def low_token_def [abs_def] split: if_splits)
  show ?case using here Cons.IH [OF rest] by (simp add: e tokens_in_Cons)
qed

lemma card_positions_with:
  assumes "length (asg_tokens a) = 19"
  shows "card (positions_with a n P) =
     length (filter P (map (token_at (asg_tokens a))
       (filter (\<lambda>i. name (asg_terrains a ! i) = n) [0..<19])))"
proof -
  let ?Q = "\<lambda>i. name (asg_terrains a ! i) = n"
  let ?R = "\<lambda>i. ?Q i \<and> P (token_at (asg_tokens a) i)"
  have "length (filter P (map (token_at (asg_tokens a)) (filter ?Q [0..<19]))) =
        length (filter (P \<circ> token_at (asg_tokens a)) (filter ?Q [0..<19]))"
    by (simp add: filter_map)
  also have "\<dots> = length (filter ?R [0..<19])"
    by (simp add: comp_def)
  also have "\<dots> = card ({i. ?R i} \<inter> set [0..<19])"
    by (rule distinct_length_filter) simp
  also have "{i. ?R i} \<inter> set [0..<19] = positions_with a n P"
    using assms by (auto simp: positions_with_def)
  finally show ?thesis by simp
qed

lemma validate_all_True:
  assumes "validate_all ta tt = Inr True"
  shows "red_loop ta tt [0..<19] = Inr True"
    and "\<exists>d. collect_loop ta tt [0..<19] [] = Inr d \<and> distribution_check d \<and> clustering_check d"
  using assms
  by (auto simp: validate_all_def validateRedAdjacency_def validateResourceDistribution_def
      validateLowNumberClustering_def split: sum.splits if_splits)

lemma validate_all_fair:
  assumes wf: "well_formed a"
    and ok: "validate_all (asg_tokens a) (asg_terrains a) = Inr True"
  shows "red_separated a \<and> six_eight_spread a \<and> low_spread a"
proof -
  let ?ta = "asg_tokens a" and ?tt = "asg_terrains a"
  have len_ta: "length ?ta = 19" and len_tt: "length ?tt = 19"
    and desert: "\<forall>i<19. \<not> non_desert ?tt i \<longrightarrow> ?ta ! i = Some 0"
    using wf by (simp_all add: well_formed_def)
  from validate_all_True [OF ok] obtain d
    where red: "red_loop ?ta ?tt [0..<19] = Inr True"
      and col: "collect_loop ?ta ?tt [0..<19] [] = Inr d"
      and dist: "distribution_check d" and clus: "clustering_check d"
    by blast
  have "red_separated a"
    unfolding red_separated_def
  proof (intro allI impI ballI)
    fix p q assume p: "p < 19" and rp: "red_token (?ta ! p)"
      and q: "q \<in> neighbours p" and nq: "non_desert ?tt q"
    have "non_desert ?tt p"
    proof (rule ccontr)
      assume "\<not> non_desert ?tt p"
      with desert p have "?ta ! p = Some 0" by blast
      with rp show False by (simp add: red_token_def)
    qed
    moreover have "red_token (token_at ?ta p)" using rp p len_ta by simp
    moreover have "p \<in> set [0..<19]" using p by simp
    ultimately have "\<forall>q\<in>neighbours p. non_desert ?tt q \<longrightarrow> \<not> red_token (token_at ?ta q)"
      using red_loop_True [OF red] by blast
    with q nq have nr: "\<not> red_token (token_at ?ta q)" by blast
    from adjacency_in_range [OF p] q have "q < 19" by (auto simp: neighbours_def)
    with nr len_ta show "\<not> red_token (?ta ! q)" by simp
  qed
  moreover have toks: "tokens_in d n =
      map (token_at ?ta) (filter (\<lambda>i. name (?tt ! i) = n) [0..<19])" if "n \<noteq> ''Desert''" for n
    using collect_loop_tokens_in [OF that col] len_tt by simp
  have "six_eight_spread a"
    unfolding six_eight_spread_def
  proof (intro allI impI)
    fix n :: string assume n: "n \<noteq> ''Desert''"
    show "card (positions_with a n (\<lambda>t. t = Some 6)) \<le> 1 \<and>
          card (positions_with a n (\<lambda>t. t = Some 8)) \<le> 1"
      using distribution_check_sound [OF dist, of n]
      by (simp add: card_positions_with [OF len_ta] toks [OF n])
  qed
  moreover have "low_spread a"
    unfolding low_spread_def
  proof (intro allI impI)
    fix n :: string assume n: "n \<noteq> ''Desert''"
    show "card (positions_with a n low_token) \<le> 1"
      using clustering_check_sound [OF clus, of n]
      by (simp add: card_positions_with [OF len_ta] toks [OF n])
  qed
  ultimately show ?thesis by blast
qed



subsection \<open>The attempt loop\<close>

lemma generate_candidate_unfold:
  "generate_candidate rnd k =
     (case assign_loop (fst (shuffle rnd terrains k)) (fst (shuffle rnd tokens (k + 18)))
             [0..<19] (replicate 19 (Some 0)) 0 of
        Inl e \<Rightarrow> Inl e
      | Inr ta \<Rightarrow> Inr (\<lparr>asg_terrains = fst (shuffle rnd terrains k), asg_tokens = ta\<rparr>, k + 35))"
  by (simp add: generate_candidate_def Let_def shuffle_draws terrains_length tokens_length
      split: sum.split)

lemma generate_candidate_draws:
  "generate_candidate rnd k = Inr (c, k') \<Longrightarrow> k' = k + 35"
  by (auto simp: generate_candidate_unfold split: sum.splits)

lemma generate_candidate_shift:
  assumes "\<forall>j<35. rnd' (k' + j) = rnd (k + j)"
    and "generate_candidate rnd k = Inr (c, k + 35)"
  shows "generate_candidate rnd' k' = Inr (c, k' + 35)"
proof -
  have "\<forall>j<length terrains - 1. rnd' (k' + j) = rnd (k + j)"
    using assms(1) by (simp add: terrains_length)
  then have t: "fst (shuffle rnd' terrains k') = fst (shuffle rnd terrains k)"
    by (rule shuffle_local)
  have "\<forall>j<length tokens - 1. rnd' (k' + 18 + j) = rnd (k + 18 + j)"
  proof (intro allI impI)
    fix j assume "j < length tokens - 1"
    then have "18 + j < 35" by (simp add: tokens_length)
    with assms(1) have "rnd' (k' + (18 + j)) = rnd (k + (18 + j))" by blast
    then show "rnd' (k' + 18 + j) = rnd (k + 18 + j)" by (simp add: add.assoc)
  qed
  then have s: "fst (shuffle rnd' tokens (k' + 18)) = fst (shuffle rnd tokens (k + 18))"
    by (rule shuffle_local)
  from assms(2) show ?thesis
    by (auto simp: generate_candidate_unfold t s split: sum.splits)
qed

lemma attempt_loop_done:
  "\<not> attempts < maxAttempts \<Longrightarrow> attempt_loop rnd attempts k = Inr (None, k)"
  by (simp add: attempt_loop.simps)

lemma attempt_loop_rejected:
  "attempts < maxAttempts \<Longrightarrow> rejected rnd k \<Longrightarrow>
   attempt_loop rnd attempts k = attempt_loop rnd (attempts + 1) (k + 35)"
  by (subst attempt_loop.simps) (auto simp: rejected_def)

lemma attempt_loop_accepted:
  "attempts < maxAttempts \<Longrightarrow> accepted rnd k c \<Longrightarrow>
   attempt_loop rnd attempts k = Inr (Some c, k + 35)"
  by (subst attempt_loop.simps) (auto simp: accepted_def)

lemma attempt_loop_exhausted:
  "a + m = maxAttempts \<Longrightarrow> \<forall>n<m. rejected rnd (k + 35 * n) \<Longrightarrow>
   attempt_loop rnd a k = Inr (None, k + 35 * m)"
proof (induction m arbitrary: a k)
  case 0
  then show ?case by (simp add: attempt_loop_done)
next
  case (Suc m)
  have "rejected rnd k" using Suc.prems(2) by force
  moreover have "a < maxAttempts" using Suc.prems(1) by simp
  ultimately have "attempt_loop rnd a k = attempt_loop rnd (a + 1) (k + 35)"
    by (simp add: attempt_loop_rejected)
  moreover have "\<forall>n<m. rejected rnd (k + 35 + 35 * n)"
  proof (intro allI impI)
    fix n assume "n < m"
    then have "Suc n < Suc m" by simp
    with Suc.prems(2) have "rejected rnd (k + 35 * Suc n)" by blast
    then show "rejected rnd (k + 35 + 35 * n)" by (simp add: add.assoc)
  qed
  moreover have "a + 1 + m = maxAttempts" using Suc.prems(1) by simp
  ultimately show ?case using Suc.IH [of "a + 1" "k + 35"] by (simp add: add.assoc)
qed

lemma attempt_loop_accept:
  "a + m < maxAttempts \<Longrightarrow> \<forall>n<m. rejected rnd (k + 35 * n) \<Longrightarrow>
   accepted rnd (k + 35 * m) c \<Longrightarrow>
   attempt_loop rnd a k = Inr (Some c, k + 35 * (m + 1))"
proof (induction m arbitrary: a k)
  case 0
  then show ?case by (simp add: attempt_loop_accepted)
next
  case (Suc m)
  have "rejected rnd k" using Suc.prems(2) by force
  moreover have "a < maxAttempts" using Suc.prems(1) by simp
  ultimately have "attempt_loop rnd a k = attempt_loop rnd (a + 1) (k + 35)"
    by (simp add: attempt_loop_rejected)
  moreover have "\<forall>n<m. rejected rnd (k + 35 + 35 * n)"
  proof (intro allI impI)
    fix n assume "n < m"
    then have "Suc n < Suc m" by simp
    with Suc.prems(2) have "rejected rnd (k + 35 * Suc n)" by blast
    then show "rejected rnd (k + 35 + 35 * n)" by (simp add: add.assoc)
  qed
  moreover have "a + 1 + m < maxAttempts" using Suc.prems(1) by simp
  moreover have "accepted rnd (k + 35 + 35 * m) c" using Suc.prems(3) by (simp add: add.assoc)
  ultimately show ?case using Suc.IH [of "a + 1" "k + 35"] by (simp add: add.assoc)
qed

lemma attempt_outcome:
  assumes "unit_draws rnd"
  shows "rejected rnd k \<or> (\<exists>c. accepted rnd k c \<and> well_formed c)"
    and "generate_candidate rnd k = Inr (c, k') \<Longrightarrow> well_formed c"
proof -
  from generate_candidate_ok [OF assms, of k] obtain c0
    where c0: "generate_candidate rnd k = Inr (c0, k + 35)" and wf: "well_formed c0"
    by blast
  from wf have "length (asg_terrains c0) = 19" by (simp add: well_formed_def)
  from validate_all_total [OF this, of "asg_tokens c0"]
  obtain b where "validate_all (asg_tokens c0) (asg_terrains c0) = Inr b" by blast
  with c0 wf show "rejected rnd k \<or> (\<exists>c. accepted rnd k c \<and> well_formed c)"
    by (cases b) (auto simp: rejected_def accepted_def)
  show "well_formed c" if "generate_candidate rnd k = Inr (c, k')"
    using that c0 wf by simp
qed

lemma rejected_not_accepted: "rejected rnd k \<Longrightarrow> \<not> accepted rnd k c"
  by (auto simp: rejected_def accepted_def)

lemma attempt_loop_cases:
  assumes "unit_draws rnd"
  shows "(\<forall>n<1000. rejected rnd (35 * n)) \<and> attempt_loop rnd 0 0 = Inr (None, 35000) \<or>
     (\<exists>m<1000. \<exists>c. (\<forall>n<m. rejected rnd (35 * n)) \<and> accepted rnd (35 * m) c \<and>
        well_formed c \<and> attempt_loop rnd 0 0 = Inr (Some c, 35 * (m + 1)))"
proof (cases "\<forall>n<1000. rejected rnd (35 * n)")
  case True
  then have "\<forall>n<1000. rejected rnd (0 + 35 * n)" by simp
  moreover have "0 + 1000 = maxAttempts" by (simp add: maxAttempts_def)
  ultimately have "attempt_loop rnd 0 0 = Inr (None, 0 + 35 * 1000)"
    by (rule attempt_loop_exhausted [rotated])
  with True show ?thesis by simp
next
  case False
  define m where "m = (LEAST n. n < 1000 \<and> \<not> rejected rnd (35 * n))"
  from False have ex: "\<exists>n. n < 1000 \<and> \<not> rejected rnd (35 * n)" by blast
  then have m: "m < 1000 \<and> \<not> rejected rnd (35 * m)"
    unfolding m_def by (rule LeastI_ex)
  have before: "\<forall>n<m. rejected rnd (35 * n)"
  proof (intro allI impI)
    fix n assume "n < m"
    then have "\<not> (n < 1000 \<and> \<not> rejected rnd (35 * n))"
      unfolding m_def by (rule not_less_Least)
    moreover have "n < 1000" using \<open>n < m\<close> m by simp
    ultimately show "rejected rnd (35 * n)" by blast
  qed
  from attempt_outcome(1) [OF assms, of "35 * m"] m obtain c
    where c: "accepted rnd (35 * m) c" and wf: "well_formed c" by blast
  have "0 + m < maxAttempts" using m by (simp add: maxAttempts_def)
  moreover have "\<forall>n<m. rejected rnd (0 + 35 * n)" using before by simp
  moreover have "accepted rnd (0 + 35 * m) c" using c by simp
  ultimately have "attempt_loop rnd 0 0 = Inr (Some c, 0 + 35 * (m + 1))"
    by (rule attempt_loop_accept)
  with m before c wf show ?thesis by auto
qed

lemma attempt_loop_local:
  "maxAttempts - a = m \<Longrightarrow> attempt_loop rnd a k = Inr (res, k2) \<Longrightarrow>
   k \<le> k2 \<and> ((\<forall>j. k \<le> j \<and> j < k2 \<longrightarrow> rnd' j = rnd j) \<longrightarrow>
     attempt_loop rnd' a k = Inr (res, k2))"
proof (induction m arbitrary: a k)
  case 0
  then have "\<not> a < maxAttempts" by simp
  with 0 show ?case by (simp add: attempt_loop_done)
next
  case (Suc m)
  then have a: "a < maxAttempts" by simp
  from Suc.prems(2) a obtain c k1 ok
    where gen: "generate_candidate rnd k = Inr (c, k1)"
      and val: "validate_all (asg_tokens c) (asg_terrains c) = Inr ok"
      and res: "(if ok then Inr (Some c, k1) else attempt_loop rnd (a + 1) k1) = Inr (res, k2)"
    by (subst (asm) attempt_loop.simps) (auto split: sum.splits)
  have k1: "k1 = k + 35" using gen by (rule generate_candidate_draws)
  have same: "generate_candidate rnd' k = Inr (c, k + 35)"
    if "\<forall>j. k \<le> j \<and> j < k + 35 \<longrightarrow> rnd' j = rnd j"
  proof -
    from that have "\<forall>j<35. rnd' (k + j) = rnd (k + j)" by simp
    then show ?thesis using gen [unfolded k1] by (rule generate_candidate_shift)
  qed
  show ?case
  proof (cases ok)
    case True
    with res have r: "res = Some c" "k2 = k + 35" by (simp_all add: k1)
    have "attempt_loop rnd' a k = Inr (res, k2)"
      if "\<forall>j. k \<le> j \<and> j < k2 \<longrightarrow> rnd' j = rnd j"
    proof -
      from that have "generate_candidate rnd' k = Inr (c, k + 35)"
        unfolding r by (rule same)
      with val True have "accepted rnd' k c" by (simp add: accepted_def)
      with a show ?thesis by (simp add: attempt_loop_accepted r)
    qed
    with r show ?thesis by simp
  next
    case False
    with res have next_run: "attempt_loop rnd (a + 1) (k + 35) = Inr (res, k2)"
      by (simp add: k1)
    have "maxAttempts - (a + 1) = m" using Suc.prems(1) by simp
    from Suc.IH [OF this next_run]
    have le: "k + 35 \<le> k2"
      and loc: "(\<forall>j. k + 35 \<le> j \<and> j < k2 \<longrightarrow> rnd' j = rnd j) \<longrightarrow>
                attempt_loop rnd' (a + 1) (k + 35) = Inr (res, k2)"
      by blast+
    have "attempt_loop rnd' a k = Inr (res, k2)"
      if agree: "\<forall>j. k \<le> j \<and> j < k2 \<longrightarrow> rnd' j = rnd j"
    proof -
      from agree le have "\<forall>j. k \<le> j \<and> j < k + 35 \<longrightarrow> rnd' j = rnd j" by simp
      then have "generate_candidate rnd' k = Inr (c, k + 35)" by (rule same)
      with val False have "rejected rnd' k" by (auto simp: rejected_def)
      with a have "attempt_loop rnd' a k = attempt_loop rnd' (a + 1) (k + 35)"
        by (rule attempt_loop_rejected)
      moreover from agree have "\<forall>j. k + 35 \<le> j \<and> j < k2 \<longrightarrow> rnd' j = rnd j" by simp
      ultimately show ?thesis using loc by simp
    qed
    with le show ?thesis by simp
  qed
qed



lemma generator_cases:
  assumes "unit_draws rnd"
  shows "(\<forall>n<1000. rejected rnd (35 * n)) \<and> attempt_loop rnd 0 0 = Inr (None, 35000) \<and>
       (\<exists>c. generate_candidate rnd 35000 = Inr (c, 35035) \<and> well_formed c \<and>
          generateValidAssignment rnd =
            Inr \<lparr>returned = c, warnings = [fallback_notice], draws = 35035\<rparr>) \<or>
     (\<exists>m<1000. \<exists>c. (\<forall>n<m. rejected rnd (35 * n)) \<and> accepted rnd (35 * m) c \<and>
        well_formed c \<and> attempt_loop rnd 0 0 = Inr (Some c, 35 * (m + 1)) \<and>
        generateValidAssignment rnd =
          Inr \<lparr>returned = c, warnings = [], draws = 35 * (m + 1)\<rparr>)"
  using attempt_loop_cases [OF assms]
proof (elim disjE conjE exE)
  assume all: "\<forall>n<1000. rejected rnd (35 * n)"
    and loop: "attempt_loop rnd 0 0 = Inr (None, 35000)"
  from generate_candidate_ok [OF assms, of 35000] obtain c
    where c: "generate_candidate rnd 35000 = Inr (c, 35035)" and wf: "well_formed c"
    by auto
  from loop c have "generateValidAssignment rnd =
      Inr \<lparr>returned = c, warnings = [fallback_notice], draws = 35035\<rparr>"
    by (simp add: generateValidAssignment_def)
  with all loop c wf show ?thesis by blast
next
  fix m c
  assume m: "m < 1000" and before: "\<forall>n<m. rejected rnd (35 * n)"
    and acc: "accepted rnd (35 * m) c" and wf: "well_formed c"
    and loop: "attempt_loop rnd 0 0 = Inr (Some c, 35 * (m + 1))"
  from loop have "generateValidAssignment rnd =
      Inr \<lparr>returned = c, warnings = [], draws = 35 * (m + 1)\<rparr>"
    by (simp add: generateValidAssignment_def)
  with m before acc wf loop show ?thesis by blast
qed

subsection \<open>Completeness of a well-formed candidate\<close>

lemma name_Desert_iff [simp]: "name t = ''Desert'' \<longleftrightarrow> t = Desert"
  by (cases t) simp_all

lemma non_desert_iff: "non_desert ts p \<longleftrightarrow> ts ! p \<noteq> Desert"
  by (simp add: non_desert_def)

lemma one_desert:
  assumes "length ts = 19" and "mset ts = mset terrains"
  shows "card {p. p < 19 \<and> ts ! p = Desert} = 1"
proof -
  have "{p. p < 19 \<and> ts ! p = Desert} = {p. ts ! p = Desert} \<inter> set [0..<19]"
    by auto
  moreover have "length (filter (\<lambda>p. ts ! p = Desert) [0..<19]) =
        card ({p. ts ! p = Desert} \<inter> set [0..<19])"
    by (rule distinct_length_filter) simp
  moreover have "length (filter (\<lambda>p. ts ! p = Desert) [0..<length ts]) =
        length (filter (\<lambda>t. t = Desert) ts)"
    by (rule filter_positions)
  moreover have "length (filter (\<lambda>t. t = Desert) ts) = length (filter (\<lambda>t. t = Desert) terrains)"
    using assms(2) by (rule length_filter_mset_eq)
  moreover have "length (filter (\<lambda>t. t = Desert) terrains) = 1"
    by (simp add: terrains_def)
  ultimately show ?thesis using assms(1) by simp
qed

lemma well_formed_complete:
  assumes "well_formed a"
  shows "length (asg_terrains a) = 19 \<and> length (asg_tokens a) = 19 \<and>
     mset (asg_terrains a) = mset terrains \<and>
     card {p. p < 19 \<and> asg_terrains a ! p = Desert} = 1 \<and>
     (\<forall>p<19. asg_terrains a ! p = Desert \<longrightarrow> asg_tokens a ! p = Some 0) \<and>
     length (filter (\<lambda>p. asg_terrains a ! p \<noteq> Desert) [0..<19]) = 18 \<and>
     mset (map ((!) (asg_tokens a)) (filter (\<lambda>p. asg_terrains a ! p \<noteq> Desert) [0..<19])) =
       mset (map Some tokens)"
proof -
  from assms obtain sk where len: "length (asg_terrains a) = 19" "length (asg_tokens a) = 19"
    and ms: "mset (asg_terrains a) = mset terrains"
    and desert: "\<forall>i<19. \<not> non_desert (asg_terrains a) i \<longrightarrow> asg_tokens a ! i = Some 0"
    and sk: "mset sk = mset tokens"
    and toks: "map ((!) (asg_tokens a)) (filter (non_desert (asg_terrains a)) [0..<19]) = map Some sk"
    unfolding well_formed_def by blast
  have nd: "non_desert (asg_terrains a) = (\<lambda>p. asg_terrains a ! p \<noteq> Desert)"
    by (rule ext) (rule non_desert_iff)
  have "mset (map Some sk) = mset (map Some tokens)"
    using sk by (metis mset_map)
  with toks have "mset (map ((!) (asg_tokens a)) (filter (non_desert (asg_terrains a)) [0..<19])) =
       mset (map Some tokens)" by simp
  moreover have "length (filter (non_desert (asg_terrains a)) [0..<19]) = 18"
    using len(1) ms by (rule non_desert_count)
  moreover have "card {p. p < 19 \<and> asg_terrains a ! p = Desert} = 1"
    using len(1) ms by (rule one_desert)
  ultimately show ?thesis using len ms desert by (simp add: nd)
qed

lemma terrains_mset:
  "mset terrains =
     replicate_mset 4 Wood + replicate_mset 4 Wheat + replicate_mset 4 Sheep +
     replicate_mset 3 Ore + replicate_mset 3 Brick + {#Desert#}"
  by (simp add: terrains_def)

subsection \<open>Runs on the concrete sources\<close>

lemma zero_candidate: "generate_candidate zero_rnd 0 = Inr (rotated_board, 35)"
  by code_simp

lemma rotated_board_invalid:
  "validate_all (asg_tokens rotated_board) (asg_terrains rotated_board) = Inr False"
  by code_simp

lemma good_candidate: "generate_candidate good_rnd 35 = Inr (good_board, 70)"
  by code_simp

lemma good_board_valid:
  "validate_all (asg_tokens good_board) (asg_terrains good_board) = Inr True"
  by code_simp

lemma half_candidate: "generate_candidate half_rnd 0 = Inr (half_board, 35)"
  by code_simp

lemma boards_differ: "half_board \<noteq> rotated_board"
  by (simp add: half_board_def rotated_board_def)

lemma unit_draws_zero: "unit_draws zero_rnd"
  by (simp add: unit_draws_def zero_rnd_def)

lemma unit_draws_late: "unit_draws late_rnd"
  by (simp add: unit_draws_def late_rnd_def)

lemma good_draws_unit: "\<forall>r\<in>set good_draws. 0 \<le> r \<and> r < 1"
  by (simp add: good_draws_def)

lemma good_draws_length: "length good_draws = 35"
  by (simp add: good_draws_def)

lemma unit_draws_good: "unit_draws good_rnd"
proof -
  have "0 \<le> good_rnd k \<and> good_rnd k < 1" for k
  proof (cases "35 \<le> k \<and> k < 70")
    case True
    then have "k - 35 < length good_draws" unfolding good_draws_length by arith
    then have "good_draws ! (k - 35) \<in> set good_draws" by (rule nth_mem)
    with good_draws_unit True show ?thesis by (simp add: good_rnd_def)
  next
    case False
    then have "good_rnd k = 0" unfolding good_rnd_def by (rule if_not_P)
    then show ?thesis by simp
  qed
  then show ?thesis by (simp add: unit_draws_def)
qed

lemma zero_window:
  assumes "\<forall>j<35. rnd (k + j) = 0"
  shows "generate_candidate rnd k = Inr (rotated_board, k + 35)"
proof -
  from assms have "\<forall>j<35. rnd (k + j) = zero_rnd (0 + j)" by (simp add: zero_rnd_def)
  moreover have "generate_candidate zero_rnd 0 = Inr (rotated_board, 0 + 35)"
    using zero_candidate by simp
  ultimately show ?thesis by (rule generate_candidate_shift)
qed

lemma zero_window_rejected: "\<forall>j<35. rnd (k + j) = 0 \<Longrightarrow> rejected rnd k"
  unfolding rejected_def using zero_window rotated_board_invalid by blast

lemma zero_prefix_exhausts:
  assumes "\<forall>j<35000. rnd j = 0"
  shows "attempt_loop rnd 0 0 = Inr (None, 35000)"
proof -
  have "\<forall>n<1000. rejected rnd (0 + 35 * n)"
  proof (intro allI impI)
    fix n :: nat assume "n < 1000"
    then have "\<forall>j<35. rnd (35 * n + j) = 0" using assms by simp
    then show "rejected rnd (0 + 35 * n)" by (simp add: zero_window_rejected)
  qed
  moreover have "0 + 1000 = maxAttempts" by (simp add: maxAttempts_def)
  ultimately have "attempt_loop rnd 0 0 = Inr (None, 0 + 35 * 1000)"
    by (rule attempt_loop_exhausted [rotated])
  then show ?thesis by simp
qed

lemma run_zero:
  "generateValidAssignment zero_rnd =
     Inr \<lparr>returned = rotated_board, warnings = [fallback_notice], draws = 35035\<rparr>"
proof -
  have "attempt_loop zero_rnd 0 0 = Inr (None, 35000)"
    by (rule zero_prefix_exhausts) (simp add: zero_rnd_def)
  moreover have "generate_candidate zero_rnd 35000 = Inr (rotated_board, 35000 + 35)"
    by (rule zero_window) (simp add: zero_rnd_def)
  ultimately show ?thesis by (simp add: generateValidAssignment_def)
qed

lemma late_final_attempt: "generate_candidate late_rnd 34965 = Inr (rotated_board, 35000)"
proof -
  have "generate_candidate late_rnd 34965 = Inr (rotated_board, 34965 + 35)"
    by (rule zero_window) (simp add: late_rnd_def)
  then show ?thesis by simp
qed

lemma late_fallback: "generate_candidate late_rnd 35000 = Inr (half_board, 35035)"
proof -
  have "\<forall>j<35. late_rnd (35000 + j) = half_rnd (0 + j)"
    by (simp add: late_rnd_def half_rnd_def)
  moreover have "generate_candidate half_rnd 0 = Inr (half_board, 0 + 35)"
    using half_candidate by simp
  ultimately have "generate_candidate late_rnd 35000 = Inr (half_board, 35000 + 35)"
    by (rule generate_candidate_shift)
  then show ?thesis by simp
qed

lemma late_exhausts: "attempt_loop late_rnd 0 0 = Inr (None, 35000)"
  by (rule zero_prefix_exhausts) (simp add: late_rnd_def)

lemma late_last_iteration: "attempt_loop late_rnd 999 34965 = Inr (None, 35000)"
proof -
  have "999 + 1 = maxAttempts" by (simp add: maxAttempts_def)
  moreover have "\<forall>n<1. rejected late_rnd (34965 + 35 * n)"
    by (simp add: zero_window_rejected late_rnd_def)
  ultimately have "attempt_loop late_rnd 999 34965 = Inr (None, 34965 + 35 * 1)"
    by (rule attempt_loop_exhausted)
  then show ?thesis by simp
qed

lemma run_late:
  "generateValidAssignment late_rnd =
     Inr \<lparr>returned = half_board, warnings = [fallback_notice], draws = 35035\<rparr>"
  using late_exhausts late_fallback by (simp add: generateValidAssignment_def)

lemma good_first_rejected: "rejected good_rnd 0"
  by (rule zero_window_rejected) (simp add: good_rnd_def)

lemma good_second_accepted: "accepted good_rnd 35 good_board"
  using good_candidate good_board_valid by (simp add: accepted_def)

lemma good_loop: "attempt_loop good_rnd 0 0 = Inr (Some good_board, 70)"
proof -
  have "0 + 1 < maxAttempts" by (simp add: maxAttempts_def)
  moreover have "\<forall>n<1. rejected good_rnd (0 + 35 * n)"
    using good_first_rejected by simp
  moreover have "accepted good_rnd (0 + 35 * 1) good_board"
    using good_second_accepted by simp
  ultimately have "attempt_loop good_rnd 0 0 = Inr (Some good_board, 0 + 35 * (1 + 1))"
    by (rule attempt_loop_accept)
  then show ?thesis by simp
qed

lemma run_good:
  "generateValidAssignment good_rnd =
     Inr \<lparr>returned = good_board, warnings = [], draws = 70\<rparr>"
  using good_loop by (simp add: generateValidAssignment_def)



subsection \<open>The adjacency table\<close>

lemma edge_neighbours_table:
  "map edge_neighbours [0..<19] =
     [[1, 3, 4], [0, 2, 4, 5], [1, 5, 6], [0, 4, 7, 8], [0, 1, 3, 5, 8, 9],
      [1, 2, 4, 6, 9, 10], [2, 5, 10, 11], [3, 8, 12], [3, 4, 7, 9, 12, 13],
      [4, 5, 8, 10, 13, 14], [5, 6, 9, 11, 14, 15], [6, 10, 15],
      [7, 8, 13, 16], [8, 9, 12, 14, 16, 17], [9, 10, 13, 15, 17, 18],
      [10, 11, 14, 18], [12, 13, 17], [13, 14, 16, 18], [14, 15, 17]]"
  by code_simp

lemma symmetric_table:
  "\<forall>p\<in>set [0..<19]. \<forall>q\<in>set [0..<19]. q \<in> neighbours p \<longrightarrow> p \<in> neighbours q"
  by code_simp

lemma adjacency_dom: "adjacencyMap p = Some ps \<Longrightarrow> p < 19"
  by (simp add: adjacencyMap_def split: if_splits)

subsection \<open>The generator on the store\<close>

lemma shuffle_at_eq:
  "a < length heap \<Longrightarrow>
   shuffle_at rnd a i heap k = (heap[a := fst (shuffle_loop rnd i (heap ! a) k)], k + i)"
proof (induction i arbitrary: heap k)
  case 0
  then show ?case by simp
next
  case (Suc i)
  let ?j = "nat \<lfloor>rnd k * (real (Suc i) + 1)\<rfloor>"
  let ?h = "heap[a := swap (heap ! a) (Suc i) ?j]"
  have "a < length ?h" using Suc.prems by simp
  from Suc.IH [OF this, of "k + 1"] Suc.prems show ?case
    by (simp add: Let_def)
qed

lemma swap_map:
  "i < length xs \<Longrightarrow> j < length xs \<Longrightarrow> swap (map f xs) i j = map f (swap xs i j)"
  by (simp add: swap_def map_update)

lemma shuffle_loop_map:
  "unit_draws rnd \<Longrightarrow> i < length xs \<Longrightarrow>
   fst (shuffle_loop rnd i (map f xs) k) = map f (fst (shuffle_loop rnd i xs k))"
proof (induction i arbitrary: xs k)
  case 0
  then show ?case by simp
next
  case (Suc i)
  let ?j = "nat \<lfloor>rnd k * (real (Suc i) + 1)\<rfloor>"
  have "?j \<le> Suc i"
    using Suc.prems(1) by (intro draw_index_le) (simp_all add: unit_draws_def)
  with Suc.prems have "swap (map f xs) (Suc i) ?j = map f (swap xs (Suc i) ?j)"
    by (intro swap_map) simp_all
  moreover have "fst (shuffle_loop rnd i (map f (swap xs (Suc i) ?j)) (k + 1)) =
      map f (fst (shuffle_loop rnd i (swap xs (Suc i) ?j) (k + 1)))"
    using Suc.prems by (intro Suc.IH) simp_all
  ultimately show ?case by (simp add: Let_def)
qed

lemma shuffle_map:
  assumes "unit_draws rnd"
  shows "fst (shuffle rnd (map f xs) k) = map f (fst (shuffle rnd xs k))"
proof (cases xs)
  case Nil
  then show ?thesis by (simp add: shuffle_def)
next
  case (Cons x ys)
  then have "length xs - 1 < length xs" by simp
  with assms show ?thesis by (simp add: shuffle_def shuffle_loop_map)
qed

lemma token_at_map_Some: "token_at (map Some xs) i = number_at xs i"
  by (simp add: token_at_def number_at_def)

lemma assign_at_eq:
  assumes "sk \<noteq> ta" and "heap0 ! sk = map Some tokenList"
  shows "ta < length heap \<Longrightarrow> heap ! sk = heap0 ! sk \<Longrightarrow>
     assign_at st sk ta is heap t =
       (case assign_loop st tokenList is (heap ! ta) t of
          Inl e \<Rightarrow> Inl e
        | Inr res \<Rightarrow> Inr (heap[ta := res]))"
proof (induction "is" arbitrary: heap t)
  case Nil
  then show ?case by simp
next
  case (Cons i rest)
  show ?case
  proof (cases "name_at st i")
    case (Inl e)
    then show ?thesis by simp
  next
    case (Inr n)
    show ?thesis
    proof (cases "n = ''Desert''")
      case True
      with Inr Cons.IH [OF Cons.prems] show ?thesis by simp
    next
      case False
      let ?h = "heap[ta := (heap ! ta)[i := number_at tokenList t]]"
      have v: "token_at (heap ! sk) t = number_at tokenList t"
        using Cons.prems(2) assms(2) by (simp add: token_at_map_Some)
      have len: "ta < length ?h" using Cons.prems(1) by simp
      have keep: "?h ! sk = heap0 ! sk" using assms(1) Cons.prems(2) by simp
      have at_ta: "?h ! ta = (heap ! ta)[i := number_at tokenList t]"
        using Cons.prems(1) by simp
      have over: "?h[ta := res] = heap[ta := res]" for res by simp
      have ih: "assign_at st sk ta rest ?h (t + 1) =
          (case assign_loop st tokenList rest (?h ! ta) (t + 1) of
             Inl e \<Rightarrow> Inl e
           | Inr res \<Rightarrow> Inr (?h[ta := res]))"
        using len keep by (rule Cons.IH)
      have step1: "assign_at st sk ta (i # rest) heap t = assign_at st sk ta rest ?h (t + 1)"
        using Inr False by (simp add: v)
      have step2: "assign_loop st tokenList (i # rest) (heap ! ta) t =
          assign_loop st tokenList rest ((heap ! ta)[i := number_at tokenList t]) (t + 1)"
        using Inr False by simp
      show ?thesis by (simp only: step1 step2 ih at_ta over)
    qed
  qed
qed

lemma extends_refl: "extends s s"
  by (simp add: extends_def)

lemma extends_trans: "extends s s1 \<Longrightarrow> extends s1 s2 \<Longrightarrow> extends s s2"
  by (auto simp: extends_def)

lemma extends_length:
  "extends s s' \<Longrightarrow>
   length (terrain_heap s) \<le> length (terrain_heap s') \<and>
   length (number_heap s) \<le> length (number_heap s')"
  by (auto simp: extends_def)

lemma extends_unchanged:
  assumes "extends s s'"
  shows "a < length (terrain_heap s) \<Longrightarrow> terrain_heap s' ! a = terrain_heap s ! a"
    and "b < length (number_heap s) \<Longrightarrow> number_heap s' ! b = number_heap s ! b"
  using assms by (auto simp: extends_def nth_append)

lemma extends_tables: "tables_at tr tk s \<Longrightarrow> extends s s' \<Longrightarrow> tables_at tr tk s'"
  by (auto simp: tables_at_def extends_def nth_append)

lemma generate_candidate_st_eq:
  assumes "unit_draws rnd" and "tables_at tr tk s"
  shows "\<exists>c s'. generate_candidate rnd k = Inr (c, k + 35) \<and> well_formed c \<and>
     generate_candidate_st rnd tr tk k s =
       Inr (\<lparr>terrains_ref = length (terrain_heap s),
              tokens_ref = Suc (length (number_heap s))\<rparr>, k + 35, s') \<and>
     extends s s' \<and>
     deref s' \<lparr>terrains_ref = length (terrain_heap s),
               tokens_ref = Suc (length (number_heap s))\<rparr> = c"
proof -
  define th where "th = terrain_heap s"
  define nh where "nh = number_heap s"
  define st where "st = fst (shuffle rnd terrains k)"
  define sk where "sk = fst (shuffle rnd tokens (k + 18))"
  from assms(2) have tr: "th ! tr = terrains" and tk: "nh ! tk = map Some tokens"
    by (simp_all add: tables_at_def th_def nh_def)
  from generate_candidate_ok [OF assms(1), of k] obtain c
    where c: "generate_candidate rnd k = Inr (c, k + 35)" and wf: "well_formed c"
    by blast
  from c have run: "assign_loop st sk [0..<19] (replicate 19 (Some 0)) 0 = Inr (asg_tokens c)"
    and c_st: "asg_terrains c = st"
    by (auto simp: generate_candidate_unfold st_def sk_def split: sum.splits)
  have sh1: "shuffle_at rnd (length th) 18 (th @ [terrains]) k = (th @ [st], k + 18)"
    by (simp add: shuffle_at_eq st_def shuffle_def terrains_length)
  have "fst (shuffle rnd (map Some tokens) (k + 18)) = map Some sk"
    unfolding sk_def using assms(1) by (rule shuffle_map)
  then have sh2: "shuffle_at rnd (length nh) 17 (nh @ [map Some tokens]) (k + 18) =
      (nh @ [map Some sk], k + 35)"
    by (simp add: shuffle_at_eq shuffle_def tokens_length)
  let ?h = "nh @ [map Some sk, replicate 19 (Some 0)]"
  have "assign_at st (length nh) (Suc (length nh)) [0..<19] ?h 0 =
      (case assign_loop st sk [0..<19] (?h ! Suc (length nh)) 0 of
         Inl e \<Rightarrow> Inl e
       | Inr res \<Rightarrow> Inr (?h[Suc (length nh) := res]))"
    by (rule assign_at_eq [where ?heap0.0 = ?h]) (simp_all add: nth_append)
  moreover have "?h ! Suc (length nh) = replicate 19 (Some 0)"
    by (simp add: nth_append)
  moreover have "?h[Suc (length nh) := res] = nh @ [map Some sk, res]" for res
    by (simp add: list_update_append)
  ultimately have asg: "assign_at st (length nh) (Suc (length nh)) [0..<19] ?h 0 =
      Inr (nh @ [map Some sk, asg_tokens c])"
    using run by simp
  define s' where "s' = \<lparr>terrain_heap = th @ [st], number_heap = nh @ [map Some sk, asg_tokens c]\<rparr>"
  have "generate_candidate_st rnd tr tk k s =
       Inr (\<lparr>terrains_ref = length th, tokens_ref = Suc (length nh)\<rparr>, k + 35, s')"
    using asg
    by (simp add: generate_candidate_st_def Let_def alloc_def th_def [symmetric]
        nh_def [symmetric] tr tk terrains_length tokens_length sh1 sh2 s'_def)
  moreover have "extends s s'"
    by (auto simp: extends_def s'_def th_def nh_def)
  moreover have "deref s' \<lparr>terrains_ref = length th, tokens_ref = Suc (length nh)\<rparr> = c"
    by (simp add: deref_def s'_def c_st nth_append)
  ultimately show ?thesis using c wf unfolding th_def nh_def by blast
qed

lemma attempt_loop_st_eq:
  assumes "unit_draws rnd"
  shows "maxAttempts - a = m \<Longrightarrow> tables_at tr tk s \<Longrightarrow>
     \<exists>res k' s'. attempt_loop_st rnd tr tk a k s = Inr (res, k', s') \<and> extends s s' \<and>
        attempt_loop rnd a k = Inr (map_option (deref s') res, k') \<and>
        (\<forall>obj. res = Some obj \<longrightarrow>
           length (terrain_heap s) \<le> terrains_ref obj \<and>
           length (number_heap s) \<le> tokens_ref obj)"
proof (induction m arbitrary: a k s)
  case 0
  then have "\<not> a < maxAttempts" by simp
  then have "attempt_loop_st rnd tr tk a k s = Inr (None, k, s)"
    and "attempt_loop rnd a k = Inr (None, k)"
    by (simp_all add: attempt_loop_st.simps attempt_loop_done)
  then show ?case using extends_refl by auto
next
  case (Suc m)
  then have a: "a < maxAttempts" by simp
  let ?obj = "\<lparr>terrains_ref = length (terrain_heap s),
               tokens_ref = Suc (length (number_heap s))\<rparr>"
  from generate_candidate_st_eq [OF assms Suc.prems(2), of k] obtain c s1
    where c: "generate_candidate rnd k = Inr (c, k + 35)" and wf: "well_formed c"
      and st: "generate_candidate_st rnd tr tk k s = Inr (?obj, k + 35, s1)"
      and ext: "extends s s1" and der: "deref s1 ?obj = c"
    by blast
  from wf have "length (asg_terrains c) = 19" by (simp add: well_formed_def)
  from validate_all_total [OF this, of "asg_tokens c"]
  obtain ok where ok: "validate_all (asg_tokens c) (asg_terrains c) = Inr ok" by blast
  have ok_st: "validate_all (number_heap s1 ! tokens_ref ?obj) (terrain_heap s1 ! terrains_ref ?obj) =
      Inr ok"
    using ok der by (auto simp: deref_def)
  show ?case
  proof (cases ok)
    case True
    have "attempt_loop_st rnd tr tk a k s = Inr (Some ?obj, k + 35, s1)"
      using a st ok_st True by (subst attempt_loop_st.simps) simp
    moreover have "attempt_loop rnd a k = Inr (Some c, k + 35)"
      using a c ok True by (intro attempt_loop_accepted) (simp_all add: accepted_def)
    ultimately show ?thesis using ext der by auto
  next
    case False
    have step: "attempt_loop_st rnd tr tk a k s = attempt_loop_st rnd tr tk (a + 1) (k + 35) s1"
      using a st ok_st False by (subst attempt_loop_st.simps) simp
    have "rejected rnd k" using c ok False by (auto simp: rejected_def)
    with a have pure: "attempt_loop rnd a k = attempt_loop rnd (a + 1) (k + 35)"
      by (rule attempt_loop_rejected)
    have "maxAttempts - (a + 1) = m" using Suc.prems(1) by simp
    moreover have "tables_at tr tk s1" using Suc.prems(2) ext by (rule extends_tables)
    ultimately obtain res k' s'
      where run: "attempt_loop_st rnd tr tk (a + 1) (k + 35) s1 = Inr (res, k', s')"
        and ext': "extends s1 s'"
        and pure': "attempt_loop rnd (a + 1) (k + 35) = Inr (map_option (deref s') res, k')"
        and fresh: "\<forall>obj. res = Some obj \<longrightarrow>
           length (terrain_heap s1) \<le> terrains_ref obj \<and>
           length (number_heap s1) \<le> tokens_ref obj"
      using Suc.IH [of "a + 1" s1 "k + 35"] by blast
    have "extends s s'" using ext ext' by (rule extends_trans)
    moreover have "\<forall>obj. res = Some obj \<longrightarrow>
           length (terrain_heap s) \<le> terrains_ref obj \<and>
           length (number_heap s) \<le> tokens_ref obj"
      using fresh extends_length [OF ext] by auto
    ultimately show ?thesis using step pure run pure' by auto
  qed
qed

lemma generateValidAssignment_st_eq:
  assumes "unit_draws rnd" and "tables_at terrainsRef tokensRef s"
  shows "\<exists>obj ws k s'.
      generateValidAssignment_st rnd terrainsRef tokensRef s = Inr (obj, ws, k, s') \<and>
      extends s s' \<and> tables_at terrainsRef tokensRef s' \<and>
      length (terrain_heap s) \<le> terrains_ref obj \<and> length (number_heap s) \<le> tokens_ref obj \<and>
      generateValidAssignment rnd = Inr \<lparr>returned = deref s' obj, warnings = ws, draws = k\<rparr>"
proof -
  from attempt_loop_st_eq [OF assms(1) refl assms(2), of 0 0] obtain res k1 s1
    where run: "attempt_loop_st rnd terrainsRef tokensRef 0 0 s = Inr (res, k1, s1)"
      and ext: "extends s s1"
      and pure: "attempt_loop rnd 0 0 = Inr (map_option (deref s1) res, k1)"
      and fresh: "\<forall>obj. res = Some obj \<longrightarrow>
           length (terrain_heap s) \<le> terrains_ref obj \<and>
           length (number_heap s) \<le> tokens_ref obj"
    by blast
  have tab1: "tables_at terrainsRef tokensRef s1" using assms(2) ext by (rule extends_tables)
  show ?thesis
  proof (cases res)
    case (Some obj)
    with run have "generateValidAssignment_st rnd terrainsRef tokensRef s = Inr (obj, [], k1, s1)"
      by (simp add: generateValidAssignment_st_def)
    moreover from Some pure
    have "generateValidAssignment rnd = Inr \<lparr>returned = deref s1 obj, warnings = [], draws = k1\<rparr>"
      by (simp add: generateValidAssignment_def)
    ultimately show ?thesis using ext tab1 fresh Some by blast
  next
    case None
    let ?obj = "\<lparr>terrains_ref = length (terrain_heap s1),
                 tokens_ref = Suc (length (number_heap s1))\<rparr>"
    from generate_candidate_st_eq [OF assms(1) tab1, of k1] obtain c s2
      where c: "generate_candidate rnd k1 = Inr (c, k1 + 35)"
        and st: "generate_candidate_st rnd terrainsRef tokensRef k1 s1 = Inr (?obj, k1 + 35, s2)"
        and ext2: "extends s1 s2" and der: "deref s2 ?obj = c"
      by blast
    from None run st
    have "generateValidAssignment_st rnd terrainsRef tokensRef s =
        Inr (?obj, [fallback_notice], k1 + 35, s2)"
      by (simp add: generateValidAssignment_st_def)
    moreover from None pure c der
    have "generateValidAssignment rnd =
        Inr \<lparr>returned = deref s2 ?obj, warnings = [fallback_notice], draws = k1 + 35\<rparr>"
      by (simp add: generateValidAssignment_def)
    moreover have "extends s s2" using ext ext2 by (rule extends_trans)
    moreover have "tables_at terrainsRef tokensRef s2" using tab1 ext2 by (rule extends_tables)
    moreover have "length (terrain_heap s) \<le> terrains_ref ?obj \<and>
        length (number_heap s) \<le> tokens_ref ?obj"
      using extends_length [OF ext] by simp
    ultimately show ?thesis by blast
  qed
qed

lemma store_run_good:
  "generateValidAssignment_st good_rnd 0 0 table_store =
     Inr (\<lparr>terrains_ref = 2, tokens_ref = 4\<rparr>, [], 70, good_store)"
  by code_simp

section \<open>The claims\<close>

text \<open>
  Every statement about \<open>generateValidAssignment\<close> assumes \<open>unit_draws rnd\<close>, the
  contract of \<open>Math.random\<close>. Attempt number \<open>n\<close> of the loop (counted from 0) runs
  the candidate block after \<open>35 * n\<close> calls of \<open>Math.random\<close>.
\<close>

subsection \<open>C1: an assignment returned from inside the loop is fair\<close>

text \<open>
  Claim C1. When the \<open>while\<close> loop ends by its \<open>return\<close>, that is when a candidate
  passed the three validation functions before the 1000 attempts were used up, the
  generator returns that candidate without a warning, and the candidate satisfies
  the three fairness rules: no position holding 6 or 8 has a non-Desert neighbour
  in \<open>adjacencyMap\<close> holding 6 or 8; for every terrain name other than Desert at
  most one of its positions holds 6 and at most one holds 8; and at most one of its
  positions holds 2, 3 or 12.
\<close>

theorem validated_assignment_fair:
  assumes "unit_draws rnd" and "attempt_loop rnd 0 0 = Inr (Some c, k)"
  shows "generateValidAssignment rnd = Inr \<lparr>returned = c, warnings = [], draws = k\<rparr> \<and>
     red_separated c \<and> six_eight_spread c \<and> low_spread c"
proof -
  from generator_cases [OF assms(1)] assms(2) obtain m
    where "accepted rnd (35 * m) c" and "well_formed c"
    by auto
  then have "red_separated c \<and> six_eight_spread c \<and> low_spread c"
    by (intro validate_all_fair) (simp_all add: accepted_def)
  moreover from assms(2)
  have "generateValidAssignment rnd = Inr \<lparr>returned = c, warnings = [], draws = k\<rparr>"
    by (simp add: generateValidAssignment_def)
  ultimately show ?thesis by simp
qed

theorem validated_assignment_fair_witness:
  "unit_draws good_rnd \<and> attempt_loop good_rnd 0 0 = Inr (Some good_board, 70) \<and>
   generateValidAssignment good_rnd =
     Inr \<lparr>returned = good_board, warnings = [], draws = 70\<rparr> \<and>
   red_separated good_board \<and> six_eight_spread good_board \<and> low_spread good_board"
  using validated_assignment_fair [OF unit_draws_good good_loop] unit_draws_good good_loop
  by simp

subsection \<open>C2: every returned assignment is complete\<close>

text \<open>
  Claim C2. Whatever path returns it, the returned assignment has 19 terrains that
  are a rearrangement of the table \<open>terrains\<close> (Wood, Wheat and Sheep four times,
  Ore and Brick three times, one Desert) and 19 token entries. Exactly one position
  is the Desert, and it keeps the filler \<open>0\<close> that \<open>new Array(19).fill(0)\<close> put there:
  it receives none of the tokens (\<open>CatanBoard\<close> passes \<open>showToken = false\<close> for it).
  The 18 other positions hold exactly the multiset of the table \<open>tokens\<close>, that
  is 2, 3, 3, 4, 4, 5, 5, 6, 6, 8, 8, 9, 9, 10, 10, 11, 11, 12, each token once.
\<close>

theorem returned_board_complete:
  assumes "unit_draws rnd" and "generateValidAssignment rnd = Inr r"
  shows "length (asg_terrains (returned r)) = 19 \<and> length (asg_tokens (returned r)) = 19 \<and>
     mset (asg_terrains (returned r)) =
       replicate_mset 4 Wood + replicate_mset 4 Wheat + replicate_mset 4 Sheep +
       replicate_mset 3 Ore + replicate_mset 3 Brick + {#Desert#} \<and>
     card {p. p < 19 \<and> asg_terrains (returned r) ! p = Desert} = 1 \<and>
     (\<forall>p<19. asg_terrains (returned r) ! p = Desert \<longrightarrow> asg_tokens (returned r) ! p = Some 0) \<and>
     length (filter (\<lambda>p. asg_terrains (returned r) ! p \<noteq> Desert) [0..<19]) = 18 \<and>
     mset (map ((!) (asg_tokens (returned r)))
        (filter (\<lambda>p. asg_terrains (returned r) ! p \<noteq> Desert) [0..<19])) =
       mset (map Some [2, 3, 3, 4, 4, 5, 5, 6, 6, 8, 8, 9, 9, 10, 10, 11, 11, 12])"
proof -
  from generator_cases [OF assms(1)] assms(2) have "well_formed (returned r)"
    by auto
  then show ?thesis
    by (rule well_formed_complete [unfolded terrains_mset tokens_def])
qed

theorem returned_board_complete_witness:
  "unit_draws zero_rnd \<and>
   generateValidAssignment zero_rnd =
     Inr \<lparr>returned = rotated_board, warnings = [fallback_notice], draws = 35035\<rparr> \<and>
   length (asg_terrains rotated_board) = 19 \<and> length (asg_tokens rotated_board) = 19 \<and>
   mset (asg_terrains rotated_board) =
     replicate_mset 4 Wood + replicate_mset 4 Wheat + replicate_mset 4 Sheep +
     replicate_mset 3 Ore + replicate_mset 3 Brick + {#Desert#} \<and>
   card {p. p < 19 \<and> asg_terrains rotated_board ! p = Desert} = 1 \<and>
   asg_terrains rotated_board ! 17 = Desert \<and> asg_tokens rotated_board ! 17 = Some 0 \<and>
   length (filter (\<lambda>p. asg_terrains rotated_board ! p \<noteq> Desert) [0..<19]) = 18 \<and>
   mset (map ((!) (asg_tokens rotated_board))
      (filter (\<lambda>p. asg_terrains rotated_board ! p \<noteq> Desert) [0..<19])) =
     mset (map Some [2, 3, 3, 4, 4, 5, 5, 6, 6, 8, 8, 9, 9, 10, 10, 11, 11, 12])"
proof -
  have d: "asg_terrains rotated_board ! 17 = Desert"
    by (simp add: rotated_board_def)
  have r: "returned \<lparr>returned = rotated_board, warnings = [fallback_notice], draws = 35035\<rparr> =
      rotated_board"
    by simp
  note all = returned_board_complete [OF unit_draws_zero run_zero, unfolded r]
  from all d have "asg_tokens rotated_board ! 17 = Some 0" by simp
  with all d unit_draws_zero run_zero show ?thesis by blast
qed

subsection \<open>C3: the adjacency table against the grid\<close>

text \<open>
  Claim C3 says that \<open>adjacencyMap\<close> lists, for every position, the positions whose
  hexes share an edge with it in the 3-4-5-4-3 grid. The table is right for the
  positions 0 to 6 and for 18 and wrong for the positions 7 to 17. Position 7, the
  first hex of the middle row, touches 3, 8 and 12; the table also lists 13, which
  lies three half-widths to the right in the next row.
\<close>

theorem adjacency_lower_half_mismatch:
  "adjacencyMap 7 = Some [3, 8, 12, 13] \<and> edge_neighbours 7 = [3, 8, 12] \<and>
   \<not> shares_edge 7 13 \<and>
   filter (\<lambda>p. neighbours p \<noteq> set (edge_neighbours p)) [0..<19] =
     [7, 8, 9, 10, 11, 12, 13, 14, 15, 16, 17]"
  by code_simp

subsection \<open>C4: what is returned when the budget is exhausted\<close>

text \<open>
  Claim C4 says that after 1000 failed attempts the generator returns the candidate
  of the final attempt. It does not. The arrays of an attempt are local to the loop
  body; after the loop the source runs the candidate block once more, on the next
  35 values of \<open>Math.random\<close>, and returns that new candidate unvalidated. With
  \<open>late_rnd\<close> all 1000 attempts build \<open>rotated_board\<close> and fail, the last of them
  (\<open>attempts = 999\<close>) after 34965 calls, and the generator returns \<open>half_board\<close>.
\<close>

theorem last_candidate_counterexample:
  "unit_draws late_rnd \<and>
   attempt_loop late_rnd 0 0 = Inr (None, 35000) \<and>
   attempt_loop late_rnd 999 34965 = Inr (None, 35000) \<and>
   generate_candidate late_rnd 34965 = Inr (rotated_board, 35000) \<and>
   generateValidAssignment late_rnd =
     Inr \<lparr>returned = half_board, warnings = [fallback_notice], draws = 35035\<rparr> \<and>
   half_board \<noteq> rotated_board"
  using unit_draws_late late_exhausts late_last_iteration late_final_attempt run_late
    boards_differ
  by simp

text \<open>
  Claim C4 as amended. When the loop ends because the 1000 attempts are used up
  (all of them were rejected), the generator raises no error: it warns once and
  returns the candidate that one further run of the candidate block builds from the
  next 35 values of \<open>Math.random\<close>, without validating it.
\<close>

theorem exhausted_budget_fresh_candidate:
  assumes "unit_draws rnd" and "attempt_loop rnd 0 0 = Inr (None, k)"
  shows "k = 35 * 1000 \<and> (\<forall>n<1000. rejected rnd (35 * n)) \<and>
     (\<exists>c. generate_candidate rnd k = Inr (c, k + 35) \<and>
        generateValidAssignment rnd =
          Inr \<lparr>returned = c, warnings = [fallback_notice], draws = k + 35\<rparr>)"
  using generator_cases [OF assms(1)] assms(2) by auto

theorem exhausted_budget_fresh_candidate_witness:
  "unit_draws late_rnd \<and> attempt_loop late_rnd 0 0 = Inr (None, 35000) \<and>
   (35000 :: nat) = 35 * 1000 \<and> rejected late_rnd (35 * 0) \<and> rejected late_rnd (35 * 999) \<and>
   (\<exists>c. generate_candidate late_rnd 35000 = Inr (c, 35000 + 35) \<and>
      generateValidAssignment late_rnd =
        Inr \<lparr>returned = c, warnings = [fallback_notice], draws = 35000 + 35\<rparr>)"
proof -
  from exhausted_budget_fresh_candidate [OF unit_draws_late late_exhausts]
  have all: "\<forall>n<1000. rejected late_rnd (35 * n)"
    and run: "\<exists>c. generate_candidate late_rnd 35000 = Inr (c, 35000 + 35) \<and>
      generateValidAssignment late_rnd =
        Inr \<lparr>returned = c, warnings = [fallback_notice], draws = 35000 + 35\<rparr>"
    by blast+
  have "(0::nat) < 1000" and "(999::nat) < 1000" by simp_all
  with all have "rejected late_rnd (35 * 0)" and "rejected late_rnd (35 * 999)"
    by blast+
  with run unit_draws_late late_exhausts show ?thesis by simp
qed

subsection \<open>C5: the generator terminates and does not throw\<close>

text \<open>
  Claim C5. For every sequence of values in \<open>[0, 1)\<close> the generator returns a
  result and no \<open>TypeError\<close>. It runs the candidate block, which makes 35 calls of
  \<open>Math.random\<close> and visits the 19 positions, either \<open>n\<close> times for some \<open>n\<close> from 1
  to 1000 (the \<open>n\<close>-th attempt was accepted) or 1001 times (1000 rejected attempts
  and the block after the loop). That the model is a total function at all is the
  termination of its recursions: \<open>attempt_loop\<close> by the measure
  \<open>maxAttempts - attempts\<close>, all others by recursion over finite index lists.
\<close>

theorem generator_terminates:
  assumes "unit_draws rnd"
  shows "\<exists>r. generateValidAssignment rnd = Inr r \<and>
     ((\<exists>n. 1 \<le> n \<and> n \<le> 1000 \<and> draws r = 35 * n \<and> warnings r = []) \<or>
      draws r = 35 * 1001 \<and> warnings r = [fallback_notice])"
  using generator_cases [OF assms]
proof (elim disjE conjE exE)
  fix c
  assume "generateValidAssignment rnd =
      Inr \<lparr>returned = c, warnings = [fallback_notice], draws = 35035\<rparr>"
  then show ?thesis by simp
next
  fix m c
  assume "m < 1000" and "generateValidAssignment rnd =
      Inr \<lparr>returned = c, warnings = [], draws = 35 * (m + 1)\<rparr>"
  then have "generateValidAssignment rnd =
      Inr \<lparr>returned = c, warnings = [], draws = 35 * (m + 1)\<rparr> \<and>
      1 \<le> m + 1 \<and> m + 1 \<le> 1000" by simp
  then show ?thesis by (intro exI [of _ "\<lparr>returned = c, warnings = [], draws = 35 * (m + 1)\<rparr>"])
      (auto intro: exI [of _ "m + 1"])
qed

theorem generator_terminates_witness:
  "unit_draws good_rnd \<and>
   (\<exists>r. generateValidAssignment good_rnd = Inr r \<and>
     ((\<exists>n. 1 \<le> n \<and> n \<le> 1000 \<and> draws r = 35 * n \<and> warnings r = []) \<or>
      draws r = 35 * 1001 \<and> warnings r = [fallback_notice])) \<and>
   unit_draws zero_rnd \<and>
   (\<exists>r. generateValidAssignment zero_rnd = Inr r \<and>
     ((\<exists>n. 1 \<le> n \<and> n \<le> 1000 \<and> draws r = 35 * n \<and> warnings r = []) \<or>
      draws r = 35 * 1001 \<and> warnings r = [fallback_notice]))"
  using generator_terminates [OF unit_draws_good] generator_terminates [OF unit_draws_zero]
    unit_draws_good unit_draws_zero
  by simp

subsection \<open>C6: the fallback notice\<close>

text \<open>
  Claim C6. The generator always returns a result (no exception leaves it). Its
  log of \<open>console.warn\<close> calls holds the one notice \<open>"Could not generate valid Catan
  board after", 1000, "attempts"\<close> when all 1000 attempts were rejected, which is
  when the loop ends by its condition, and is empty when an attempt was accepted.
\<close>

theorem fallback_notice_iff_exhausted:
  assumes "unit_draws rnd"
  shows "\<exists>r. generateValidAssignment rnd = Inr r \<and>
     warnings r =
       (if \<forall>n<1000. rejected rnd (35 * n)
        then [[Str ''Could not generate valid Catan board after'', Num 1000, Str ''attempts'']]
        else []) \<and>
     ((\<forall>n<1000. rejected rnd (35 * n)) \<longleftrightarrow> (\<exists>k. attempt_loop rnd 0 0 = Inr (None, k)))"
  using generator_cases [OF assms]
proof (elim disjE conjE exE)
  fix c
  assume "\<forall>n<1000. rejected rnd (35 * n)" and "attempt_loop rnd 0 0 = Inr (None, 35000)"
    and "generateValidAssignment rnd =
      Inr \<lparr>returned = c, warnings = [fallback_notice], draws = 35035\<rparr>"
  then show ?thesis by (simp add: fallback_notice_def maxAttempts_def)
next
  fix m c
  assume m: "m < 1000" and acc: "accepted rnd (35 * m) c"
    and loop: "attempt_loop rnd 0 0 = Inr (Some c, 35 * (m + 1))"
    and run: "generateValidAssignment rnd =
      Inr \<lparr>returned = c, warnings = [], draws = 35 * (m + 1)\<rparr>"
  from acc have "\<not> rejected rnd (35 * m)" using rejected_not_accepted by blast
  with m have "\<not> (\<forall>n<1000. rejected rnd (35 * n))" by blast
  with loop run show ?thesis by simp
qed

theorem fallback_notice_iff_exhausted_witness:
  "unit_draws zero_rnd \<and>
   (\<exists>r. generateValidAssignment zero_rnd = Inr r \<and>
      warnings r =
        [[Str ''Could not generate valid Catan board after'', Num 1000, Str ''attempts'']]) \<and>
   unit_draws good_rnd \<and> accepted good_rnd (35 * 1) good_board \<and>
   (\<exists>r. generateValidAssignment good_rnd = Inr r \<and> warnings r = [])"
proof -
  have z: "\<forall>n<1000. rejected zero_rnd (35 * n)"
    by (simp add: zero_window_rejected zero_rnd_def)
  have a: "accepted good_rnd (35 * 1) good_board"
    using good_second_accepted by simp
  then have "\<not> rejected good_rnd (35 * 1)"
    using rejected_not_accepted by blast
  then have g: "\<not> (\<forall>n<1000. rejected good_rnd (35 * n))"
    by (intro notI) (drule spec [of _ 1], simp)
  from fallback_notice_iff_exhausted [OF unit_draws_zero] z
  have "\<exists>r. generateValidAssignment zero_rnd = Inr r \<and>
      warnings r =
        [[Str ''Could not generate valid Catan board after'', Num 1000, Str ''attempts'']]"
    by auto
  moreover from fallback_notice_iff_exhausted [OF unit_draws_good] g
  have "\<exists>r. generateValidAssignment good_rnd = Inr r \<and> warnings r = []"
    by auto
  ultimately show ?thesis using a unit_draws_zero unit_draws_good by blast
qed

subsection \<open>C7: the adjacency table is symmetric\<close>

text \<open>
  Claim C7. Whenever \<open>q\<close> is listed in \<open>adjacencyMap[p]\<close>, \<open>p\<close> is listed in
  \<open>adjacencyMap[q]\<close>. The keys of the table are the positions 0 to 18 and so are
  all listed indices, so this covers all positions.
\<close>

theorem adjacency_symmetric:
  assumes "adjacencyMap p = Some ps" and "q \<in> set ps"
  shows "\<exists>qs. adjacencyMap q = Some qs \<and> p \<in> set qs"
proof -
  from assms(1) have p: "p < 19" by (rule adjacency_dom)
  from adjacency_in_range [OF p] assms have q: "q < 19" by auto
  from assms have "q \<in> neighbours p" by (simp add: neighbours_def)
  with symmetric_table p q have "p \<in> neighbours q" by simp
  then show ?thesis by (cases "adjacencyMap q") (simp_all add: neighbours_def)
qed

theorem adjacency_symmetric_witness:
  "adjacencyMap 7 = Some [3, 8, 12, 13] \<and> 13 \<in> set [3, 8, 12, 13 :: nat] \<and>
   (\<exists>qs. adjacencyMap 13 = Some qs \<and> 7 \<in> set qs)"
proof -
  have a: "adjacencyMap 7 = Some [3, 8, 12, 13]" by (simp add: adjacencyMap_def)
  have b: "13 \<in> set [3, 8, 12, 13 :: nat]" by simp
  from adjacency_symmetric [OF a b] a b show ?thesis by blast
qed

subsection \<open>C8: the pip count\<close>

text \<open>
  Claim C8. \<open>dotCount\<close> is \<open>6 - |7 - tokenNumber|\<close>: 1 for 2 and 12, 5 for 6 and 8,
  and 6 for 7, a value that is not in the token table. A token is drawn in red
  exactly when its \<open>dotCount\<close> is 5, which is exactly for 6 and 8.
\<close>

theorem pip_count:
  "dotCount t = 6 - \<bar>7 - t\<bar> \<and>
   dotCount 2 = 1 \<and> dotCount 6 = 5 \<and> dotCount 8 = 5 \<and> dotCount 12 = 1 \<and> dotCount 7 = 6 \<and>
   7 \<notin> set tokens \<and> (isRed t \<longleftrightarrow> t = 6 \<or> t = 8) \<and>
   (textColor t = ''#FF0000'' \<longleftrightarrow> t = 6 \<or> t = 8)"
  by (auto simp: dotCount_def isRed_def textColor_def tokens_def)

subsection \<open>C9: the result depends on the values drawn only\<close>

text \<open>
  Claim C9. The model is a function of the sequence of values \<open>Math.random\<close>
  returns, so two runs on the same sequence agree. More is true: the outcome (the
  returned terrains and tokens, the warnings and the number of calls made) is
  fixed by the values actually drawn. A second sequence that agrees with the first
  on the calls the first run made yields the same outcome.
\<close>

theorem generator_deterministic:
  assumes "generateValidAssignment rnd = Inr r" and "\<forall>k<draws r. rnd' k = rnd k"
  shows "generateValidAssignment rnd' = Inr r"
proof -
  from assms(1) obtain res k where loop: "attempt_loop rnd 0 0 = Inr (res, k)"
    by (auto simp: generateValidAssignment_def split: sum.splits)
  have loc: "(\<forall>j. 0 \<le> j \<and> j < k \<longrightarrow> rnd' j = rnd j) \<longrightarrow> attempt_loop rnd' 0 0 = Inr (res, k)"
    using attempt_loop_local [OF refl loop, of rnd'] by blast
  show ?thesis
  proof (cases res)
    case (Some c)
    with assms(1) loop have r: "r = \<lparr>returned = c, warnings = [], draws = k\<rparr>"
      by (simp add: generateValidAssignment_def)
    with assms(2) loc have "attempt_loop rnd' 0 0 = Inr (res, k)" by simp
    with Some r show ?thesis by (simp add: generateValidAssignment_def)
  next
    case None
    with assms(1) loop obtain c k' where gen: "generate_candidate rnd k = Inr (c, k')"
      and r: "r = \<lparr>returned = c, warnings = [fallback_notice], draws = k'\<rparr>"
      by (auto simp: generateValidAssignment_def split: sum.splits)
    have k': "k' = k + 35" using gen by (rule generate_candidate_draws)
    from assms(2) have agree: "\<forall>j<k + 35. rnd' j = rnd j" by (simp add: r k')
    then have "attempt_loop rnd' 0 0 = Inr (res, k)" using loc by simp
    moreover from agree have "\<forall>j<35. rnd' (k + j) = rnd (k + j)" by simp
    then have "generate_candidate rnd' k = Inr (c, k + 35)"
      using gen [unfolded k'] by (rule generate_candidate_shift)
    ultimately show ?thesis using None r k' by (simp add: generateValidAssignment_def)
  qed
qed

theorem generator_deterministic_witness:
  "generateValidAssignment good_rnd =
     Inr \<lparr>returned = good_board, warnings = [], draws = 70\<rparr> \<and>
   map good_then_half [0..<70] = map good_rnd [0..<70] \<and>
   good_then_half 70 \<noteq> good_rnd 70 \<and>
   generateValidAssignment good_then_half =
     Inr \<lparr>returned = good_board, warnings = [], draws = 70\<rparr>"
proof -
  have agree: "\<forall>k<draws \<lparr>returned = good_board, warnings = [], draws = 70\<rparr>.
      good_then_half k = good_rnd k"
    by (simp add: good_then_half_def)
  have "map good_then_half [0..<70] = map good_rnd [0..<70]"
    by (rule map_cong) (simp_all add: good_then_half_def)
  moreover have "good_then_half 70 \<noteq> good_rnd 70"
    by (simp add: good_then_half_def good_rnd_def)
  ultimately show ?thesis
    using generator_deterministic [OF run_good agree] run_good by simp
qed

subsection \<open>C10: the tables are not modified\<close>

text \<open>
  Claim C10, on the model with a store. Let the closure's two references point to
  arrays holding the tables, in any store. A call of the generator returns, and
  it leaves every array that existed before the call as it was: the final store
  is the old one with new arrays added behind it. In particular the two tables are
  unchanged, and the arrays of the returned object are new ones. What the call
  returns is what the first model computes from the tables and the values drawn,
  whatever else the store holds. As the tables are still in place afterwards, the
  same holds for the next call, from the store the first one left, for any values
  it draws.
\<close>

theorem tables_unchanged:
  assumes "unit_draws rnd" and "tables_at terrainsRef tokensRef s"
  shows "\<exists>obj ws k s'.
      generateValidAssignment_st rnd terrainsRef tokensRef s = Inr (obj, ws, k, s') \<and>
      extends s s' \<and>
      terrain_heap s' ! terrainsRef = terrains \<and> number_heap s' ! tokensRef = map Some tokens \<and>
      length (terrain_heap s) \<le> terrains_ref obj \<and> length (number_heap s) \<le> tokens_ref obj \<and>
      generateValidAssignment rnd = Inr \<lparr>returned = deref s' obj, warnings = ws, draws = k\<rparr> \<and>
      (\<forall>rnd'. unit_draws rnd' \<longrightarrow>
         (\<exists>obj' ws' k' s''.
            generateValidAssignment_st rnd' terrainsRef tokensRef s' = Inr (obj', ws', k', s'') \<and>
            extends s s'' \<and>
            generateValidAssignment rnd' =
              Inr \<lparr>returned = deref s'' obj', warnings = ws', draws = k'\<rparr>))"
proof -
  from generateValidAssignment_st_eq [OF assms] obtain obj ws k s'
    where run: "generateValidAssignment_st rnd terrainsRef tokensRef s = Inr (obj, ws, k, s')"
      and ext: "extends s s'" and tab: "tables_at terrainsRef tokensRef s'"
      and fresh: "length (terrain_heap s) \<le> terrains_ref obj"
        "length (number_heap s) \<le> tokens_ref obj"
      and pure: "generateValidAssignment rnd =
        Inr \<lparr>returned = deref s' obj, warnings = ws, draws = k\<rparr>"
    by blast
  have again: "\<exists>obj' ws' k' s''.
      generateValidAssignment_st rnd' terrainsRef tokensRef s' = Inr (obj', ws', k', s'') \<and>
      extends s s'' \<and>
      generateValidAssignment rnd' =
        Inr \<lparr>returned = deref s'' obj', warnings = ws', draws = k'\<rparr>"
    if "unit_draws rnd'" for rnd'
    using generateValidAssignment_st_eq [OF that tab] extends_trans [OF ext] by blast
  from tab have "terrain_heap s' ! terrainsRef = terrains"
    and "number_heap s' ! tokensRef = map Some tokens"
    by (simp_all add: tables_at_def)
  with run ext fresh pure again show ?thesis by blast
qed

theorem tables_unchanged_witness:
  "unit_draws good_rnd \<and> tables_at 0 0 table_store \<and>
   generateValidAssignment_st good_rnd 0 0 table_store =
     Inr (\<lparr>terrains_ref = 2, tokens_ref = 4\<rparr>, [], 70, good_store) \<and>
   extends table_store good_store \<and>
   terrain_heap good_store ! 0 = terrains \<and> number_heap good_store ! 0 = map Some tokens \<and>
   deref good_store \<lparr>terrains_ref = 2, tokens_ref = 4\<rparr> = good_board \<and>
   generateValidAssignment good_rnd =
     Inr \<lparr>returned = good_board, warnings = [], draws = 70\<rparr>"
proof -
  have t: "tables_at 0 0 table_store"
    by (simp add: tables_at_def table_store_def)
  from tables_unchanged [OF unit_draws_good t] store_run_good
  have "extends table_store good_store"
    and "terrain_heap good_store ! 0 = terrains"
    and "number_heap good_store ! 0 = map Some tokens"
    and "generateValidAssignment good_rnd =
      Inr \<lparr>returned = deref good_store \<lparr>terrains_ref = 2, tokens_ref = 4\<rparr>,
           warnings = [], draws = 70\<rparr>"
    by auto
  then show ?thesis using unit_draws_good t store_run_good run_good by simp
qed

end
